theory Spec2Isabelle
  imports Main "HOL-Library.Multiset" "HOL-Library.AList"
begin

section \<open>The GJKR distributed key generation of \<open>pkg/beacon/relay/gjkr/protocol.go\<close>\<close>

subsection \<open>Big integers\<close>

text \<open>
  A \<open>*big.Int\<close> that is not nil is an \<^typ>\<open>int\<close>. The methods of Go's \<open>math/big\<close> that
  \<open>protocol.go\<close> calls are modelled after their documentation:
  \<^item> \<open>Mod(x, y)\<close> is the Euclidean modulus, in \<open>[0, |y|)\<close>, and panics (division by zero)
    when \<open>y = 0\<close>; the panic is the value \<open>None\<close>;
  \<^item> \<open>Exp(x, y, m)\<close> is \<open>x ^ y mod |m|\<close>, and is \<open>x ^ y\<close> when \<open>m\<close> is nil or zero. The model
    is that of the exponents \<open>y \<ge> 0\<close>, the only ones that \<open>protocol.go\<close> passes: every
    exponent there is a result of \<open>Mod\<close>, a power of a member ID, or a decoded unsigned
    number. A negative exponent is taken as the exponent 0 here, where \<open>math/big\<close> returns
    the power of the modular inverse, or nil, under a modulus that is not zero: model and
    code agree wherever the exponent is not negative;
  \<^item> \<open>ModInverse(g, n)\<close> is the inverse of \<open>g\<close> in the ring of integers modulo \<open>|n|\<close>, in
    \<open>[0, |n|)\<close>, and is nil when \<open>g\<close> and \<open>n\<close> are not relatively prime. Its only caller
    multiplies the result at once and reduces it modulo the same \<open>n\<close>, so a nil result
    and \<open>n = 0\<close> both end in a panic there: both are the value \<open>None\<close>.
\<close>

definition Int_Mod :: "int \<Rightarrow> int \<Rightarrow> int option" where
  "Int_Mod x y = (if y = 0 then None else Some (x mod \<bar>y\<bar>))"

definition Int_Exp :: "int \<Rightarrow> int \<Rightarrow> int \<Rightarrow> int" where
  "Int_Exp x y m = (if m = 0 then x ^ nat y else x ^ nat y mod \<bar>m\<bar>)"

definition Int_ModInverse :: "int \<Rightarrow> int \<Rightarrow> int option" where
  "Int_ModInverse g n =
     (if n = 0 \<or> gcd g n \<noteq> 1 then None
      else Some (fst (bezw (nat (g mod \<bar>n\<bar>)) (nat \<bar>n\<bar>)) mod \<bar>n\<bar>))"

text \<open>
  Modelled from the spec: the type \<open>MemberID\<close> and its method \<open>Int\<close> are declared outside
  \<open>protocol.go\<close>; the spec gives a member ID as a positive integer that is unsigned on the
  wire. It is a \<^typ>\<open>nat\<close>, and \<open>id.Int()\<close> and \<open>big.NewInt(int64(id))\<close> are the conversion \<^const>\<open>int\<close>.
\<close>

type_synonym MemberID = nat

text \<open>\<open>pow(id, y)\<close>: \<open>Exp\<close> with a nil modulus, on a slice index \<open>y\<close>.\<close>

definition pow :: "MemberID \<Rightarrow> nat \<Rightarrow> int" where
  "pow memberID y = int memberID ^ y"

subsection \<open>Protocol configuration and Pedersen commitments\<close>

text \<open>
  The struct \<open>DKG\<close> holds the primes \<open>P\<close> and \<open>Q\<close>; the Pedersen scheme \<open>vss\<close> holds the
  generators \<open>G\<close> and \<open>H\<close>.
\<close>

record DKG =
  dkg_P :: int
  dkg_Q :: int

record VSS =
  vss_G :: int
  vss_H :: int

text \<open>
  Modelled from the spec: \<open>pedersen.VSS.CalculateCommitment\<close> is not part of the given
  sources. The spec defines \<open>commit(a, b) = G^a * H^b mod P\<close>, with an explicit modulus.
\<close>

definition CalculateCommitment :: "VSS \<Rightarrow> int \<Rightarrow> int \<Rightarrow> int \<Rightarrow> int option" where
  "CalculateCommitment vss s r m =
     Int_Mod (Int_Exp (vss_G vss) s m * Int_Exp (vss_H vss) r m) m"

subsection \<open>Phase 3: shares and commitments\<close>

text \<open>
  \<open>evaluateMemberShare\<close>: the loop over the coefficients, \<open>k\<close> the index and \<open>result\<close> the
  accumulator, reduced modulo \<open>Q\<close> at every step.
\<close>

fun evaluateMemberShare_loop :: "int \<Rightarrow> MemberID \<Rightarrow> nat \<Rightarrow> int list \<Rightarrow> int \<Rightarrow> int option" where
  "evaluateMemberShare_loop q memberID k [] result = Some result"
| "evaluateMemberShare_loop q memberID k (a # coefficients) result =
     (case Int_Mod (result + a * pow memberID k) q of
        None \<Rightarrow> None
      | Some result' \<Rightarrow> evaluateMemberShare_loop q memberID (Suc k) coefficients result')"

definition evaluateMemberShare :: "DKG \<Rightarrow> MemberID \<Rightarrow> int list \<Rightarrow> int option" where
  "evaluateMemberShare protocolConfig memberID coefficients =
     evaluateMemberShare_loop (dkg_Q protocolConfig) memberID 0 coefficients 0"

text \<open>
  The commitments loop of \<open>CalculateMembersSharesAndCommitments\<close>:
  \<open>commitments[k] = CalculateCommitment(coefficientsA[k], coefficientsB[k], P)\<close> for every
  index of \<open>coefficientsA\<close>; an index beyond \<open>coefficientsB\<close> panics.
\<close>

fun calculateCommitments :: "DKG \<Rightarrow> VSS \<Rightarrow> int list \<Rightarrow> int list \<Rightarrow> int list option" where
  "calculateCommitments protocolConfig vss [] coefficientsB = Some []"
| "calculateCommitments protocolConfig vss (a # coefficientsA) [] = None"
| "calculateCommitments protocolConfig vss (a # coefficientsA) (b # coefficientsB) =
     (case CalculateCommitment vss a b (dkg_P protocolConfig) of
        None \<Rightarrow> None
      | Some c \<Rightarrow>
          (case calculateCommitments protocolConfig vss coefficientsA coefficientsB of
             None \<Rightarrow> None
           | Some cs \<Rightarrow> Some (c # cs)))"

subsection \<open>Phase 4: verification of shares against commitments\<close>

text \<open>
  The product loop of \<open>areSharesValidAgainstCommitments\<close>, which
  \<open>isShareValidAgainstPublicKeySharePoints\<close> repeats word for word on the public key share
  points: \<open>product = product * c ^ (id ^ k) mod p\<close> for the element \<open>c\<close> at index \<open>k\<close>.
\<close>

fun product_loop :: "int \<Rightarrow> MemberID \<Rightarrow> nat \<Rightarrow> int list \<Rightarrow> int \<Rightarrow> int option" where
  "product_loop p memberID k [] product = Some product"
| "product_loop p memberID k (c # cs) product =
     (case Int_Mod (product * Int_Exp c (pow memberID k) p) p of
        None \<Rightarrow> None
      | Some product' \<Rightarrow> product_loop p memberID (Suc k) cs product')"

definition areSharesValidAgainstCommitments ::
  "DKG \<Rightarrow> VSS \<Rightarrow> int \<Rightarrow> int \<Rightarrow> int list \<Rightarrow> MemberID \<Rightarrow> bool option" where
  "areSharesValidAgainstCommitments protocolConfig vss shareS shareT commitments memberID =
     (case product_loop (dkg_P protocolConfig) memberID 0 commitments 1 of
        None \<Rightarrow> None
      | Some commitmentsProduct \<Rightarrow>
          (case CalculateCommitment vss shareS shareT (dkg_P protocolConfig) of
             None \<Rightarrow> None
           | Some expectedProduct \<Rightarrow> Some (expectedProduct = commitmentsProduct)))"

subsection \<open>Errors\<close>

text \<open>
  Every error that \<open>protocol.go\<close> returns is a constructor, named after its message; an
  error that wraps another (\<open>[%v]\<close>) carries it. \<open>Panic\<close> is a run-time panic of Go: a
  division by zero, a dereferenced nil pointer, an index out of range. The last three are
  the errors of the helpers that are modelled from the spec below.
\<close>

datatype error =
    Panic
  | EphemeralKeyPairDoesNotExist MemberID
  | NoSymmetricKeyForSender MemberID
  | CouldNotDecryptShareS error
  | CouldNotDecryptShareT error
  | CannotFindSharesMessage MemberID
  | CurrentMemberPartOfDispute
  | CouldNotRecoverSymmetricKey error
  | CouldNotDecryptShares error
  | NoEphemeralPublicKeyMessage MemberID
  | NoEphemeralPublicKeyForReceiver MemberID
  | NoPeerSharesMessage MemberID
  | CannotDecryptShareS error
  | CannotDecryptShareT error
  | NoSharesForReceiver MemberID
  | AuthFailed

subsection \<open>Ephemeral keys and the symmetric channel\<close>

text \<open>
  Modelled from the spec: the package \<open>ephemeral\<close> is not part of the given sources. The
  spec asks of it that \<open>ecdh(priv, pub)\<close> gives the same symmetric key on both endpoints,
  and that decryption is authenticated: it fails (\<open>AuthFailed\<close>) under any key but the one
  that encrypted. The model is symbolic: a private key is a number, its public half
  carries the same number, the key agreed between two pairs is the unordered pair of their
  numbers, and a ciphertext names the key that made it and the plaintext, which is the pair
  of shares \<open>(s, t)\<close>.
\<close>

datatype PrivateKey = PrivKey nat

datatype PublicKey = PubKey nat

record KeyPair =
  PrivateKey :: PrivateKey
  PublicKey :: PublicKey

datatype SymmetricKey = SymKey nat nat

fun Ecdh :: "PrivateKey \<Rightarrow> PublicKey \<Rightarrow> SymmetricKey" where
  "Ecdh (PrivKey a) (PubKey b) = SymKey (min a b) (max a b)"

datatype Ciphertext = Encrypted SymmetricKey int int

fun Decrypt :: "SymmetricKey \<Rightarrow> Ciphertext \<Rightarrow> error + (int \<times> int)" where
  "Decrypt key (Encrypted k s t) = (if key = k then Inr (s, t) else Inl AuthFailed)"

subsection \<open>Messages\<close>

text \<open>
  Every message has the field \<open>senderID\<close>. A Go map that the code only reads and writes by
  key is a partial function; a Go map that the code ranges over is an association list
  with distinct keys, in the order in which \<open>range\<close> visits it. Go leaves that order open:
  the theorems hold for every order.

  Modelled from the spec: the message types, and \<open>decryptShareS\<close> and \<open>decryptShareT\<close> of
  \<open>PeerSharesMessage\<close>, are declared outside \<open>protocol.go\<close>. After the spec a shares message
  holds, for every receiver, the pair of shares encrypted under the symmetric key of sender
  and receiver; the two accusation messages, of Phase 4 and of Phase 8, have the same
  fields and share one record.
\<close>

record Message =
  senderID :: MemberID

record EphemeralPublicKeyMessage = Message +
  ephemeralPublicKeys :: "MemberID \<rightharpoonup> PublicKey"

record PeerSharesMessage = Message +
  shares :: "MemberID \<rightharpoonup> Ciphertext"

record MemberCommitmentsMessage = Message +
  commitments :: "int list"

record AccusationsMessage = Message +
  accusedMembersKeys :: "(MemberID \<times> PrivateKey) list"

type_synonym SecretSharesAccusationsMessage = AccusationsMessage

type_synonym PointsAccusationsMessage = AccusationsMessage

record MemberPublicKeySharePointsMessage = Message +
  message_publicKeySharePoints :: "int list"

definition decryptShareS :: "PeerSharesMessage \<Rightarrow> MemberID \<Rightarrow> SymmetricKey \<Rightarrow> error + int" where
  "decryptShareS psm receiverID key =
     (case shares psm receiverID of
        None \<Rightarrow> Inl (NoSharesForReceiver receiverID)
      | Some c \<Rightarrow> (case Decrypt key c of Inl err \<Rightarrow> Inl err | Inr st \<Rightarrow> Inr (fst st)))"

definition decryptShareT :: "PeerSharesMessage \<Rightarrow> MemberID \<Rightarrow> SymmetricKey \<Rightarrow> error + int" where
  "decryptShareT psm receiverID key =
     (case shares psm receiverID of
        None \<Rightarrow> Inl (NoSharesForReceiver receiverID)
      | Some c \<Rightarrow> (case Decrypt key c of Inl err \<Rightarrow> Inl err | Inr st \<Rightarrow> Inr (snd st)))"

subsection \<open>Evidence log\<close>

text \<open>
  Modelled from the spec: the evidence log is declared outside \<open>protocol.go\<close>. After the
  spec it maps a sender to the message it broadcast in a phase, and the first message
  recorded for a sender wins: a later write for the same sender is ignored.
\<close>

record evidenceLog =
  pubKeyMessageLog :: "MemberID \<rightharpoonup> EphemeralPublicKeyMessage"
  peerSharesMessageLog :: "MemberID \<rightharpoonup> PeerSharesMessage"

definition PutEphemeralMessage :: "evidenceLog \<Rightarrow> EphemeralPublicKeyMessage \<Rightarrow> evidenceLog" where
  "PutEphemeralMessage log pubKeyMessage =
     (case pubKeyMessageLog log (senderID pubKeyMessage) of
        None \<Rightarrow> log\<lparr>pubKeyMessageLog := (pubKeyMessageLog log)(senderID pubKeyMessage \<mapsto> pubKeyMessage)\<rparr>
      | Some _ \<Rightarrow> log)"

definition ephemeralPublicKeyMessage :: "evidenceLog \<Rightarrow> MemberID \<Rightarrow> EphemeralPublicKeyMessage option" where
  "ephemeralPublicKeyMessage log sender = pubKeyMessageLog log sender"

definition peerSharesMessage :: "evidenceLog \<Rightarrow> MemberID \<Rightarrow> PeerSharesMessage option" where
  "peerSharesMessage log sender = peerSharesMessageLog log sender"

subsection \<open>The member\<close>

text \<open>
  The member types of the phases embed one another, so that a member of a later phase has
  every field of the earlier ones: the state is one record. A field that is a pointer set
  by a phase is an option, \<open>None\<close> while it is nil; the field \<open>shareT\<close> is
  \<open>member_shareT\<close> here, apart from the local variables of that name. The maps \<open>receivedValidSharesS\<close>,
  \<open>receivedValidSharesT\<close>, \<open>receivedValidPeerPublicKeySharePoints\<close> and the two maps of
  reconstructed keys are ranged over by a later phase: they are association lists.
\<close>

record Member =
  ID :: MemberID
  protocolConfig :: DKG
  vss :: VSS
  evidenceLog :: evidenceLog
  ephemeralKeyPairs :: "MemberID \<rightharpoonup> KeyPair"
  symmetricKeys :: "MemberID \<rightharpoonup> SymmetricKey"
  secretCoefficients :: "int list"
  selfSecretShareS :: "int option"
  selfSecretShareT :: "int option"
  receivedValidSharesS :: "(MemberID \<times> int) list"
  receivedValidSharesT :: "(MemberID \<times> int) list"
  receivedValidPeerCommitments :: "MemberID \<rightharpoonup> int list"
  masterPrivateKeyShare :: "int option"
  member_shareT :: "int option"
  publicKeySharePoints :: "int list"
  receivedValidPeerPublicKeySharePoints :: "(MemberID \<times> int list) list"
  reconstructedIndividualPrivateKeys :: "(MemberID \<times> int) list"
  reconstructedIndividualPublicKeys :: "(MemberID \<times> int) list"
  groupPublicKey :: "int option"

subsection \<open>Phase 2: symmetric keys\<close>

text \<open>
  The body of the loop of \<open>GenerateSymmetricKeys\<close> on one message: the message goes into
  the evidence log first, then the key pair for its sender is looked up. The public key
  meant for this member is read from the map of the message; a missing entry reads as a
  nil pointer, on which \<open>Ecdh\<close> panics. The result is the state as the body leaves it and
  the error that ends the loop, if any.
\<close>

definition GenerateSymmetricKeys_body ::
  "Member \<Rightarrow> EphemeralPublicKeyMessage \<Rightarrow> Member \<times> error option" where
  "GenerateSymmetricKeys_body sm ephemeralPubKeyMessage =
     (let sm1 = sm\<lparr>evidenceLog := PutEphemeralMessage (evidenceLog sm) ephemeralPubKeyMessage\<rparr>;
          otherMember = senderID ephemeralPubKeyMessage
      in case ephemeralKeyPairs sm1 otherMember of
           None \<Rightarrow> (sm1, Some (EphemeralKeyPairDoesNotExist otherMember))
         | Some ephemeralKeyPair \<Rightarrow>
             (case ephemeralPublicKeys ephemeralPubKeyMessage (ID sm1) of
                None \<Rightarrow> (sm1, Some Panic)
              | Some otherMemberEphemeralPublicKey \<Rightarrow>
                  (sm1\<lparr>symmetricKeys := (symmetricKeys sm1)
                      (otherMember \<mapsto> Ecdh (PrivateKey ephemeralKeyPair) otherMemberEphemeralPublicKey)\<rparr>,
                   None)))"

fun GenerateSymmetricKeys ::
  "Member \<Rightarrow> EphemeralPublicKeyMessage list \<Rightarrow> Member \<times> error option" where
  "GenerateSymmetricKeys sm [] = (sm, None)"
| "GenerateSymmetricKeys sm (ephemeralPubKeyMessage # ephemeralPubKeyMessages) =
     (case GenerateSymmetricKeys_body sm ephemeralPubKeyMessage of
        (sm', Some err) \<Rightarrow> (sm', Some err)
      | (sm', None) \<Rightarrow> GenerateSymmetricKeys sm' ephemeralPubKeyMessages)"

subsection \<open>Phase 4: verification of the received shares and commitments\<close>

text \<open>
  The body of the outer loop of \<open>VerifyReceivedSharesAndCommitmentsMessages\<close> on one
  commitments message. The inner loop stops at the first shares message of the same sender
  (both of its branches end in \<open>break\<close>, the errors in \<open>return\<close>): that is \<^const>\<open>find\<close>. The
  private key revealed in an accusation is read through the key pair of the sender, a nil
  pointer when the map has none.
\<close>

definition VerifyReceivedSharesAndCommitmentsMessages_body ::
  "Member \<Rightarrow> PeerSharesMessage list \<Rightarrow> MemberCommitmentsMessage \<Rightarrow> (MemberID \<times> PrivateKey) list
     \<Rightarrow> error + Member \<times> (MemberID \<times> PrivateKey) list" where
  "VerifyReceivedSharesAndCommitmentsMessages_body cvm sharesMessages commitmentsMessage accusedMembersKeys' =
     (case find (\<lambda>sharesMessage. senderID sharesMessage = senderID commitmentsMessage) sharesMessages of
        None \<Rightarrow> Inl (CannotFindSharesMessage (senderID commitmentsMessage))
      | Some sharesMessage \<Rightarrow>
          (case symmetricKeys cvm (senderID sharesMessage) of
             None \<Rightarrow> Inl (NoSymmetricKeyForSender (senderID sharesMessage))
           | Some symmetricKey \<Rightarrow>
               (case decryptShareS sharesMessage (ID cvm) symmetricKey of
                  Inl err \<Rightarrow> Inl (CouldNotDecryptShareS err)
                | Inr shareS \<Rightarrow>
                    (case decryptShareT sharesMessage (ID cvm) symmetricKey of
                       Inl err \<Rightarrow> Inl (CouldNotDecryptShareT err)
                     | Inr shareT \<Rightarrow>
                         (case areSharesValidAgainstCommitments (protocolConfig cvm) (vss cvm)
                                 shareS shareT (commitments commitmentsMessage) (ID cvm) of
                            None \<Rightarrow> Inl Panic
                          | Some False \<Rightarrow>
                              (case ephemeralKeyPairs cvm (senderID commitmentsMessage) of
                                 None \<Rightarrow> Inl Panic
                               | Some keyPair \<Rightarrow>
                                   Inr (cvm, AList.update (senderID commitmentsMessage)
                                               (PrivateKey keyPair) accusedMembersKeys'))
                          | Some True \<Rightarrow>
                              Inr (cvm\<lparr>receivedValidSharesS :=
                                         AList.update (senderID commitmentsMessage) shareS (receivedValidSharesS cvm),
                                       receivedValidSharesT :=
                                         AList.update (senderID commitmentsMessage) shareT (receivedValidSharesT cvm),
                                       receivedValidPeerCommitments :=
                                         (receivedValidPeerCommitments cvm)
                                           (senderID commitmentsMessage \<mapsto> commitments commitmentsMessage)\<rparr>,
                                   accusedMembersKeys'))))))"

fun VerifyReceivedSharesAndCommitmentsMessages_loop ::
  "Member \<Rightarrow> PeerSharesMessage list \<Rightarrow> MemberCommitmentsMessage list \<Rightarrow> (MemberID \<times> PrivateKey) list
     \<Rightarrow> error + Member \<times> (MemberID \<times> PrivateKey) list" where
  "VerifyReceivedSharesAndCommitmentsMessages_loop cvm sharesMessages [] accusedMembersKeys' =
     Inr (cvm, accusedMembersKeys')"
| "VerifyReceivedSharesAndCommitmentsMessages_loop cvm sharesMessages
       (commitmentsMessage # commitmentsMessages) accusedMembersKeys' =
     (case VerifyReceivedSharesAndCommitmentsMessages_body cvm sharesMessages commitmentsMessage
             accusedMembersKeys' of
        Inl err \<Rightarrow> Inl err
      | Inr (cvm', accused') \<Rightarrow>
          VerifyReceivedSharesAndCommitmentsMessages_loop cvm' sharesMessages commitmentsMessages accused')"

text \<open>
  The function returns the accusations message, or the error with a nil message; on
  success the member holds the shares and commitments that passed.
\<close>

definition VerifyReceivedSharesAndCommitmentsMessages ::
  "Member \<Rightarrow> PeerSharesMessage list \<Rightarrow> MemberCommitmentsMessage list
     \<Rightarrow> error + Member \<times> SecretSharesAccusationsMessage" where
  "VerifyReceivedSharesAndCommitmentsMessages cvm sharesMessages commitmentsMessages =
     (case VerifyReceivedSharesAndCommitmentsMessages_loop cvm sharesMessages commitmentsMessages [] of
        Inl err \<Rightarrow> Inl err
      | Inr (cvm', accused) \<Rightarrow>
          Inr (cvm', \<lparr>senderID = ID cvm, accusedMembersKeys = accused\<rparr>))"

subsection \<open>Phase 5: resolution of the accusations against shares\<close>

definition recoverSymmetricKey ::
  "evidenceLog \<Rightarrow> MemberID \<Rightarrow> MemberID \<Rightarrow> PrivateKey \<Rightarrow> error + SymmetricKey" where
  "recoverSymmetricKey log senderID' receiverID receiverPrivateKey =
     (case ephemeralPublicKeyMessage log senderID' of
        None \<Rightarrow> Inl (NoEphemeralPublicKeyMessage senderID')
      | Some message \<Rightarrow>
          (case ephemeralPublicKeys message receiverID of
             None \<Rightarrow> Inl (NoEphemeralPublicKeyForReceiver receiverID)
           | Some senderPublicKey \<Rightarrow> Inr (Ecdh receiverPrivateKey senderPublicKey)))"

definition recoverShares ::
  "evidenceLog \<Rightarrow> MemberID \<Rightarrow> MemberID \<Rightarrow> SymmetricKey \<Rightarrow> error + (int \<times> int)" where
  "recoverShares log senderID' receiverID symmetricKey =
     (case peerSharesMessage log senderID' of
        None \<Rightarrow> Inl (NoPeerSharesMessage senderID')
      | Some message \<Rightarrow>
          (case decryptShareS message receiverID symmetricKey of
             Inl err \<Rightarrow> Inl (CannotDecryptShareS err)
           | Inr shareS \<Rightarrow>
               (case decryptShareT message receiverID symmetricKey of
                  Inl err \<Rightarrow> Inl (CannotDecryptShareT err)
                | Inr shareT \<Rightarrow> Inr (shareS, shareT))))"

text \<open>
  The body of the inner loop of \<open>ResolveSecretSharesAccusationsMessages\<close> on one entry of
  \<open>accusedMembersKeys\<close>. A lookup in \<open>receivedValidPeerCommitments\<close> that finds nothing gives
  the nil slice, on which the product loop does not run.
\<close>

definition ResolveSecretSharesAccusationsMessages_body ::
  "Member \<Rightarrow> MemberID \<Rightarrow> MemberID \<times> PrivateKey \<Rightarrow> MemberID list \<Rightarrow> error + MemberID list" where
  "ResolveSecretSharesAccusationsMessages_body sjm accuserID entry disqualifiedMembers =
     (let accusedID = fst entry; revealedAccuserPrivateKey = snd entry
      in if ID sjm = accuserID \<or> ID sjm = accusedID then Inl CurrentMemberPartOfDispute
         else case recoverSymmetricKey (evidenceLog sjm) accusedID accuserID revealedAccuserPrivateKey of
           Inl err \<Rightarrow> Inl (CouldNotRecoverSymmetricKey err)
         | Inr symmetricKey \<Rightarrow>
             (case recoverShares (evidenceLog sjm) accusedID accuserID symmetricKey of
                Inl err \<Rightarrow> Inl (CouldNotDecryptShares err)
              | Inr st \<Rightarrow>
                  (case areSharesValidAgainstCommitments (protocolConfig sjm) (vss sjm) (fst st) (snd st)
                          (case receivedValidPeerCommitments sjm accusedID of None \<Rightarrow> [] | Some c \<Rightarrow> c)
                          accuserID of
                     None \<Rightarrow> Inl Panic
                   | Some True \<Rightarrow> Inr (disqualifiedMembers @ [accuserID])
                   | Some False \<Rightarrow> Inr (disqualifiedMembers @ [accusedID]))))"

fun ResolveSecretSharesAccusationsMessages_inner ::
  "Member \<Rightarrow> MemberID \<Rightarrow> (MemberID \<times> PrivateKey) list \<Rightarrow> MemberID list \<Rightarrow> error + MemberID list" where
  "ResolveSecretSharesAccusationsMessages_inner sjm accuserID [] disqualifiedMembers =
     Inr disqualifiedMembers"
| "ResolveSecretSharesAccusationsMessages_inner sjm accuserID (entry # entries) disqualifiedMembers =
     (case ResolveSecretSharesAccusationsMessages_body sjm accuserID entry disqualifiedMembers of
        Inl err \<Rightarrow> Inl err
      | Inr disqualifiedMembers' \<Rightarrow>
          ResolveSecretSharesAccusationsMessages_inner sjm accuserID entries disqualifiedMembers')"

fun ResolveSecretSharesAccusationsMessages_loop ::
  "Member \<Rightarrow> SecretSharesAccusationsMessage list \<Rightarrow> MemberID list \<Rightarrow> error + MemberID list" where
  "ResolveSecretSharesAccusationsMessages_loop sjm [] disqualifiedMembers = Inr disqualifiedMembers"
| "ResolveSecretSharesAccusationsMessages_loop sjm (message # messages) disqualifiedMembers =
     (case ResolveSecretSharesAccusationsMessages_inner sjm (senderID message)
             (accusedMembersKeys message) disqualifiedMembers of
        Inl err \<Rightarrow> Inl err
      | Inr disqualifiedMembers' \<Rightarrow>
          ResolveSecretSharesAccusationsMessages_loop sjm messages disqualifiedMembers')"

text \<open>
  The function assigns to no field of its receiver: the member comes back as it went in,
  beside the list of disqualified members or the error.
\<close>

definition ResolveSecretSharesAccusationsMessages ::
  "Member \<Rightarrow> SecretSharesAccusationsMessage list \<Rightarrow> Member \<times> (error + MemberID list)" where
  "ResolveSecretSharesAccusationsMessages sjm messages =
     (sjm, ResolveSecretSharesAccusationsMessages_loop sjm messages [])"

subsection \<open>Phase 6: combination of the shares\<close>

text \<open>
  One of the two loops of \<open>CombineMemberShares\<close>: \<open>combined\<close> starts as the member's own
  share, a pointer that is nil before Phase 3 has run, and \<open>Add\<close> on a nil pointer panics.
\<close>

fun CombineMemberShares_loop :: "int \<Rightarrow> int option \<Rightarrow> int list \<Rightarrow> error + int option" where
  "CombineMemberShares_loop q combined [] = Inr combined"
| "CombineMemberShares_loop q combined (s # ss) =
     (case combined of
        None \<Rightarrow> Inl Panic
      | Some c \<Rightarrow>
          (case Int_Mod (c + s) q of
             None \<Rightarrow> Inl Panic
           | Some c' \<Rightarrow> CombineMemberShares_loop q (Some c') ss))"

definition CombineMemberShares :: "Member \<Rightarrow> error + Member" where
  "CombineMemberShares qm =
     (case CombineMemberShares_loop (dkg_Q (protocolConfig qm)) (selfSecretShareS qm)
             (map snd (receivedValidSharesS qm)) of
        Inl err \<Rightarrow> Inl err
      | Inr combinedSharesS \<Rightarrow>
          (case CombineMemberShares_loop (dkg_Q (protocolConfig qm)) (selfSecretShareT qm)
                  (map snd (receivedValidSharesT qm)) of
             Inl err \<Rightarrow> Inl err
           | Inr combinedSharesT \<Rightarrow>
               Inr (qm\<lparr>masterPrivateKeyShare := combinedSharesS, member_shareT := combinedSharesT\<rparr>)))"

subsection \<open>Phase 7: public key share points\<close>

definition CalculatePublicKeySharePoints ::
  "Member \<Rightarrow> Member \<times> MemberPublicKeySharePointsMessage" where
  "CalculatePublicKeySharePoints sm =
     (let points = map (\<lambda>a. Int_Exp (vss_G (vss sm)) a (dkg_P (protocolConfig sm))) (secretCoefficients sm)
      in (sm\<lparr>publicKeySharePoints := points\<rparr>,
          \<lparr>senderID = ID sm, message_publicKeySharePoints = points\<rparr>))"

subsection \<open>Phase 8: verification of the public key share points\<close>

text \<open>
  \<open>isShareValidAgainstPublicKeySharePoints\<close>: the share is a pointer, nil when the caller
  found none in its map; \<open>Exp\<close> with a nil exponent panics.
\<close>

definition isShareValidAgainstPublicKeySharePoints ::
  "DKG \<Rightarrow> VSS \<Rightarrow> MemberID \<Rightarrow> int option \<Rightarrow> int list \<Rightarrow> bool option" where
  "isShareValidAgainstPublicKeySharePoints protocolConfig' vss' senderID' shareS publicKeySharePoints' =
     (case product_loop (dkg_P protocolConfig') senderID' 0 publicKeySharePoints' 1 of
        None \<Rightarrow> None
      | Some product \<Rightarrow>
          (case shareS of
             None \<Rightarrow> None
           | Some s \<Rightarrow> Some (Int_Exp (vss_G vss') s (dkg_P protocolConfig') = product)))"

text \<open>
  The body of the loop of \<open>VerifyPublicKeySharePoints\<close> on one message. The share comes
  from \<open>receivedValidSharesS\<close>, the revealed private key through the key pair of the
  sender; each is a nil pointer when its map has no entry for the sender.
\<close>

definition VerifyPublicKeySharePoints_body ::
  "Member \<Rightarrow> MemberPublicKeySharePointsMessage \<Rightarrow> (MemberID \<times> PrivateKey) list
     \<Rightarrow> error + Member \<times> (MemberID \<times> PrivateKey) list" where
  "VerifyPublicKeySharePoints_body sm message accusedMembersKeys' =
     (case isShareValidAgainstPublicKeySharePoints (protocolConfig sm) (vss sm) (ID sm)
             (map_of (receivedValidSharesS sm) (senderID message))
             (message_publicKeySharePoints message) of
        None \<Rightarrow> Inl Panic
      | Some False \<Rightarrow>
          (case ephemeralKeyPairs sm (senderID message) of
             None \<Rightarrow> Inl Panic
           | Some keyPair \<Rightarrow>
               Inr (sm, AList.update (senderID message) (PrivateKey keyPair) accusedMembersKeys'))
      | Some True \<Rightarrow>
          Inr (sm\<lparr>receivedValidPeerPublicKeySharePoints :=
                     AList.update (senderID message) (message_publicKeySharePoints message)
                       (receivedValidPeerPublicKeySharePoints sm)\<rparr>,
               accusedMembersKeys'))"

fun VerifyPublicKeySharePoints_loop ::
  "Member \<Rightarrow> MemberPublicKeySharePointsMessage list \<Rightarrow> (MemberID \<times> PrivateKey) list
     \<Rightarrow> error + Member \<times> (MemberID \<times> PrivateKey) list" where
  "VerifyPublicKeySharePoints_loop sm [] accusedMembersKeys' = Inr (sm, accusedMembersKeys')"
| "VerifyPublicKeySharePoints_loop sm (message # messages) accusedMembersKeys' =
     (case VerifyPublicKeySharePoints_body sm message accusedMembersKeys' of
        Inl err \<Rightarrow> Inl err
      | Inr (sm', accused') \<Rightarrow> VerifyPublicKeySharePoints_loop sm' messages accused')"

definition VerifyPublicKeySharePoints ::
  "Member \<Rightarrow> MemberPublicKeySharePointsMessage list \<Rightarrow> error + Member \<times> PointsAccusationsMessage" where
  "VerifyPublicKeySharePoints sm messages =
     (case VerifyPublicKeySharePoints_loop sm messages [] of
        Inl err \<Rightarrow> Inl err
      | Inr (sm', accused) \<Rightarrow> Inr (sm', \<lparr>senderID = ID sm, accusedMembersKeys = accused\<rparr>))"

subsection \<open>Phase 9: resolution of the accusations against points\<close>

definition ResolvePublicKeySharePointsAccusationsMessages_body ::
  "Member \<Rightarrow> MemberID \<Rightarrow> MemberID \<times> PrivateKey \<Rightarrow> MemberID list \<Rightarrow> error + MemberID list" where
  "ResolvePublicKeySharePointsAccusationsMessages_body pjm accuserID entry disqualifiedMembers =
     (let accusedID = fst entry; revealedAccuserPrivateKey = snd entry
      in if ID pjm = accuserID \<or> ID pjm = accusedID then Inl CurrentMemberPartOfDispute
         else case recoverSymmetricKey (evidenceLog pjm) accusedID accuserID revealedAccuserPrivateKey of
           Inl err \<Rightarrow> Inl (CouldNotRecoverSymmetricKey err)
         | Inr recoveredSymmetricKey \<Rightarrow>
             (case recoverShares (evidenceLog pjm) accusedID accuserID recoveredSymmetricKey of
                Inl err \<Rightarrow> Inl (CouldNotDecryptShareS err)
              | Inr st \<Rightarrow>
                  (case isShareValidAgainstPublicKeySharePoints (protocolConfig pjm) (vss pjm) accuserID
                          (Some (fst st))
                          (case map_of (receivedValidPeerPublicKeySharePoints pjm) accusedID of
                             None \<Rightarrow> [] | Some points \<Rightarrow> points) of
                     None \<Rightarrow> Inl Panic
                   | Some True \<Rightarrow> Inr (disqualifiedMembers @ [accuserID])
                   | Some False \<Rightarrow> Inr (disqualifiedMembers @ [accusedID]))))"

fun ResolvePublicKeySharePointsAccusationsMessages_inner ::
  "Member \<Rightarrow> MemberID \<Rightarrow> (MemberID \<times> PrivateKey) list \<Rightarrow> MemberID list \<Rightarrow> error + MemberID list" where
  "ResolvePublicKeySharePointsAccusationsMessages_inner pjm accuserID [] disqualifiedMembers =
     Inr disqualifiedMembers"
| "ResolvePublicKeySharePointsAccusationsMessages_inner pjm accuserID (entry # entries) disqualifiedMembers =
     (case ResolvePublicKeySharePointsAccusationsMessages_body pjm accuserID entry disqualifiedMembers of
        Inl err \<Rightarrow> Inl err
      | Inr disqualifiedMembers' \<Rightarrow>
          ResolvePublicKeySharePointsAccusationsMessages_inner pjm accuserID entries disqualifiedMembers')"

fun ResolvePublicKeySharePointsAccusationsMessages_loop ::
  "Member \<Rightarrow> PointsAccusationsMessage list \<Rightarrow> MemberID list \<Rightarrow> error + MemberID list" where
  "ResolvePublicKeySharePointsAccusationsMessages_loop pjm [] disqualifiedMembers = Inr disqualifiedMembers"
| "ResolvePublicKeySharePointsAccusationsMessages_loop pjm (message # messages) disqualifiedMembers =
     (case ResolvePublicKeySharePointsAccusationsMessages_inner pjm (senderID message)
             (accusedMembersKeys message) disqualifiedMembers of
        Inl err \<Rightarrow> Inl err
      | Inr disqualifiedMembers' \<Rightarrow>
          ResolvePublicKeySharePointsAccusationsMessages_loop pjm messages disqualifiedMembers')"

definition ResolvePublicKeySharePointsAccusationsMessages ::
  "Member \<Rightarrow> PointsAccusationsMessage list \<Rightarrow> Member \<times> (error + MemberID list)" where
  "ResolvePublicKeySharePointsAccusationsMessages pjm messages =
     (pjm, ResolvePublicKeySharePointsAccusationsMessages_loop pjm messages [])"

subsection \<open>Phase 11: reconstruction of the keys of disqualified members\<close>

text \<open>
  \<open>DisqualifiedShares\<close>: the map \<open>peerSharesS\<close> is ranged over twice, once for its keys and
  once for its entries.
\<close>

record DisqualifiedShares =
  disqualifiedMemberID :: MemberID
  peerSharesS :: "(MemberID \<times> int) list"

text \<open>
  \<open>calculateLagrangeCoefficient\<close>: the loop over \<open>groupMembersIDs\<close>, with the coefficient
  as the accumulator. \<open>ModInverse\<close> gives nil for a difference that has no inverse modulo
  \<open>Q\<close>, and \<open>Mul\<close> panics on it.
\<close>

fun calculateLagrangeCoefficient_loop :: "int \<Rightarrow> MemberID \<Rightarrow> MemberID list \<Rightarrow> int \<Rightarrow> int option" where
  "calculateLagrangeCoefficient_loop q memberID [] lagrangeCoefficient = Some lagrangeCoefficient"
| "calculateLagrangeCoefficient_loop q memberID (otherID # groupMembersIDs) lagrangeCoefficient =
     (if otherID \<noteq> memberID then
        (case Int_ModInverse (int otherID - int memberID) q of
           None \<Rightarrow> None
         | Some inverse' \<Rightarrow>
             (case Int_Mod (int otherID * inverse') q of
                None \<Rightarrow> None
              | Some quotient' \<Rightarrow>
                  (case Int_Mod (lagrangeCoefficient * quotient') q of
                     None \<Rightarrow> None
                   | Some lagrangeCoefficient' \<Rightarrow>
                       calculateLagrangeCoefficient_loop q memberID groupMembersIDs lagrangeCoefficient')))
      else calculateLagrangeCoefficient_loop q memberID groupMembersIDs lagrangeCoefficient)"

definition calculateLagrangeCoefficient :: "DKG \<Rightarrow> MemberID \<Rightarrow> MemberID list \<Rightarrow> int option" where
  "calculateLagrangeCoefficient protocolConfig' memberID groupMembersIDs =
     calculateLagrangeCoefficient_loop (dkg_Q protocolConfig') memberID groupMembersIDs 1"

text \<open>
  The loop of \<open>ReconstructIndividualPrivateKeys\<close> over the entries of one
  \<open>DisqualifiedShares\<close>; \<open>peerIDs\<close> are the keys as the first \<open>range\<close> collected them.
\<close>

fun individualPrivateKey_loop ::
  "DKG \<Rightarrow> MemberID list \<Rightarrow> (MemberID \<times> int) list \<Rightarrow> int \<Rightarrow> int option" where
  "individualPrivateKey_loop protocolConfig' peerIDs [] individualPrivateKey = Some individualPrivateKey"
| "individualPrivateKey_loop protocolConfig' peerIDs ((peerID, peerShareS) # entries) individualPrivateKey =
     (case calculateLagrangeCoefficient protocolConfig' peerID peerIDs of
        None \<Rightarrow> None
      | Some lagrangeCoefficient \<Rightarrow>
          (case Int_Mod (individualPrivateKey + peerShareS * lagrangeCoefficient) (dkg_Q protocolConfig') of
             None \<Rightarrow> None
           | Some individualPrivateKey' \<Rightarrow>
               individualPrivateKey_loop protocolConfig' peerIDs entries individualPrivateKey'))"

text \<open>
  The outer loop, over the revealed shares. Go does not fix the order in which \<open>range\<close>
  visits a map, and the two loops over \<open>peerSharesS\<close> need not agree: the order of the
  second is the order of the association list, and the order of the first is given by
  \<open>keysOrder\<close>, which is a permutation of the keys in every run.
\<close>

fun ReconstructIndividualPrivateKeys_loop ::
  "DKG \<Rightarrow> (DisqualifiedShares \<Rightarrow> MemberID list) \<Rightarrow> DisqualifiedShares list
     \<Rightarrow> (MemberID \<times> int) list \<Rightarrow> (MemberID \<times> int) list option" where
  "ReconstructIndividualPrivateKeys_loop protocolConfig' keysOrder [] keys = Some keys"
| "ReconstructIndividualPrivateKeys_loop protocolConfig' keysOrder (ds # revealedDisqualifiedShares) keys =
     (case individualPrivateKey_loop protocolConfig' (keysOrder ds) (peerSharesS ds) 0 of
        None \<Rightarrow> None
      | Some individualPrivateKey \<Rightarrow>
          ReconstructIndividualPrivateKeys_loop protocolConfig' keysOrder revealedDisqualifiedShares
            (AList.update (disqualifiedMemberID ds) individualPrivateKey keys))"

definition ReconstructIndividualPrivateKeys ::
  "Member \<Rightarrow> (DisqualifiedShares \<Rightarrow> MemberID list) \<Rightarrow> DisqualifiedShares list \<Rightarrow> error + Member" where
  "ReconstructIndividualPrivateKeys rm keysOrder revealedDisqualifiedShares =
     (case ReconstructIndividualPrivateKeys_loop (protocolConfig rm) keysOrder
             revealedDisqualifiedShares [] of
        None \<Rightarrow> Inl Panic
      | Some keys \<Rightarrow> Inr (rm\<lparr>reconstructedIndividualPrivateKeys := keys\<rparr>))"

definition ReconstructIndividualPublicKeys :: "Member \<Rightarrow> Member" where
  "ReconstructIndividualPublicKeys rm =
     rm\<lparr>reconstructedIndividualPublicKeys :=
          map (\<lambda>(memberID, individualPrivateKey).
                 (memberID, Int_Exp (vss_G (vss rm)) individualPrivateKey (dkg_P (protocolConfig rm))))
            (reconstructedIndividualPrivateKeys rm)\<rparr>"

subsection \<open>Phase 12: the group public key\<close>

text \<open>
  Modelled from the spec: \<open>individualPublicKey\<close> and \<open>receivedValidPeerIndividualPublicKeys\<close>
  are declared outside \<open>protocol.go\<close>. After the spec the individual public key of a member
  is the first of its public key share points, \<open>A[0]\<close>; reading it from an empty slice
  panics.
\<close>

definition individualPublicKey :: "Member \<Rightarrow> int option" where
  "individualPublicKey rm = (case publicKeySharePoints rm of [] \<Rightarrow> None | a # _ \<Rightarrow> Some a)"

fun receivedValidPeerIndividualPublicKeys_loop :: "(MemberID \<times> int list) list \<Rightarrow> int list option" where
  "receivedValidPeerIndividualPublicKeys_loop [] = Some []"
| "receivedValidPeerIndividualPublicKeys_loop ((peerID, []) # entries) = None"
| "receivedValidPeerIndividualPublicKeys_loop ((peerID, a # points) # entries) =
     (case receivedValidPeerIndividualPublicKeys_loop entries of
        None \<Rightarrow> None
      | Some keys \<Rightarrow> Some (a # keys))"

definition receivedValidPeerIndividualPublicKeys :: "Member \<Rightarrow> int list option" where
  "receivedValidPeerIndividualPublicKeys rm =
     receivedValidPeerIndividualPublicKeys_loop (receivedValidPeerPublicKeySharePoints rm)"

text \<open>Either loop of \<open>CombineGroupPublicKey\<close>.\<close>

fun CombineGroupPublicKey_loop :: "int \<Rightarrow> int \<Rightarrow> int list \<Rightarrow> int option" where
  "CombineGroupPublicKey_loop p groupPublicKey' [] = Some groupPublicKey'"
| "CombineGroupPublicKey_loop p groupPublicKey' (peerPublicKey # keys) =
     (case Int_Mod (groupPublicKey' * peerPublicKey) p of
        None \<Rightarrow> None
      | Some groupPublicKey'' \<Rightarrow> CombineGroupPublicKey_loop p groupPublicKey'' keys)"

definition CombineGroupPublicKey :: "Member \<Rightarrow> error + Member" where
  "CombineGroupPublicKey rm =
     (case individualPublicKey rm of
        None \<Rightarrow> Inl Panic
      | Some groupPublicKey0 \<Rightarrow>
          (case receivedValidPeerIndividualPublicKeys rm of
             None \<Rightarrow> Inl Panic
           | Some peerPublicKeys \<Rightarrow>
               (case CombineGroupPublicKey_loop (dkg_P (protocolConfig rm)) groupPublicKey0 peerPublicKeys of
                  None \<Rightarrow> Inl Panic
                | Some groupPublicKey1 \<Rightarrow>
                    (case CombineGroupPublicKey_loop (dkg_P (protocolConfig rm)) groupPublicKey1
                            (map snd (reconstructedIndividualPublicKeys rm)) of
                       None \<Rightarrow> Inl Panic
                     | Some groupPublicKey2 \<Rightarrow> Inr (rm\<lparr>groupPublicKey := Some groupPublicKey2\<rparr>)))))"

section \<open>Notions used in the statements and proofs\<close>

text \<open>
  The value of the polynomial with the given coefficients at a member ID, and the product
  of the powers that the product loop multiplies, both counted from the index \<open>k\<close> and
  without any reduction.
\<close>

fun polynomial_sum :: "MemberID \<Rightarrow> nat \<Rightarrow> int list \<Rightarrow> int" where
  "polynomial_sum j k [] = 0"
| "polynomial_sum j k (a # as) = a * int j ^ k + polynomial_sum j (Suc k) as"

fun exponent_product :: "MemberID \<Rightarrow> nat \<Rightarrow> int list \<Rightarrow> int" where
  "exponent_product j k [] = 1"
| "exponent_product j k (c # cs) = c ^ (j ^ k) * exponent_product j (Suc k) cs"

text \<open>
  A small configuration for the concrete runs: \<open>P = 7 = 2 * 3 + 1\<close>, \<open>Q = 3\<close>, and the
  generators 2 and 4 of the subgroup of order 3.
\<close>

definition cfg7 :: DKG where
  "cfg7 = \<lparr>dkg_P = 7, dkg_Q = 3\<rparr>"

definition vss7 :: VSS where
  "vss7 = \<lparr>vss_G = 2, vss_H = 4\<rparr>"

text \<open>
  The check of Phase 8 on one message, as \<open>VerifyPublicKeySharePoints\<close> calls it, and the
  fields of the member that this check reads.
\<close>

definition pointsValid :: "Member \<Rightarrow> MemberPublicKeySharePointsMessage \<Rightarrow> bool option" where
  "pointsValid sm m =
     isShareValidAgainstPublicKeySharePoints (protocolConfig sm) (vss sm) (ID sm)
       (map_of (receivedValidSharesS sm) (senderID m)) (message_publicKeySharePoints m)"

definition sameInputs :: "Member \<Rightarrow> Member \<Rightarrow> bool" where
  "sameInputs sm sm' \<longleftrightarrow>
     ID sm' = ID sm \<and> protocolConfig sm' = protocolConfig sm \<and> vss sm' = vss sm
     \<and> receivedValidSharesS sm' = receivedValidSharesS sm
     \<and> ephemeralKeyPairs sm' = ephemeralKeyPairs sm"

text \<open>
  What Phase 2 and Phase 4 maintain: a share is held only from a peer with whom a symmetric
  key was derived, and a symmetric key was derived only for a peer for whom a key pair is
  held.
\<close>

definition keyPairsCoverShares :: "Member \<Rightarrow> bool" where
  "keyPairsCoverShares m \<longleftrightarrow>
     (\<forall>k. map_of (receivedValidSharesS m) k \<noteq> None \<longrightarrow> symmetricKeys m k \<noteq> None)
     \<and> (\<forall>k. symmetricKeys m k \<noteq> None \<longrightarrow> ephemeralKeyPairs m k \<noteq> None)"

text \<open>
  For the reconstruction of Phase 11: the peer IDs other than \<open>k\<close>, and the inverse that
  \<open>ModInverse\<close> returns for the difference of two IDs.
\<close>

definition otherIDs :: "MemberID \<Rightarrow> MemberID list \<Rightarrow> MemberID list" where
  "otherIDs k ids = filter (\<lambda>l. l \<noteq> k) ids"

definition inverseOfDifference :: "int \<Rightarrow> MemberID \<Rightarrow> MemberID \<Rightarrow> int" where
  "inverseOfDifference q k l = the (Int_ModInverse (int l - int k) q)"

text \<open>
  A prime modulus, IDs that are pairwise distinct modulo \<open>q\<close>, and revealed shares that
  can be reconstructed from: the peer IDs are distinct modulo \<open>q\<close>, and the keys as the first
  loop collects them are a permutation of the keys of the map.
\<close>

definition primeModulus :: "int \<Rightarrow> bool" where
  "primeModulus q \<longleftrightarrow> 1 < q \<and> (\<forall>d\<in>{2..<q}. \<not> d dvd q)"

definition distinctModulo :: "int \<Rightarrow> MemberID list \<Rightarrow> bool" where
  "distinctModulo q keys \<longleftrightarrow> distinct (map (\<lambda>k. int k mod q) keys)"

definition reconstructible :: "int \<Rightarrow> (DisqualifiedShares \<Rightarrow> MemberID list) \<Rightarrow> DisqualifiedShares \<Rightarrow> bool" where
  "reconstructible q keysOrder d \<longleftrightarrow>
     distinctModulo q (map fst (peerSharesS d)) \<and> mset (keysOrder d) = mset (map fst (peerSharesS d))"

text \<open>
  Polynomials over the integers as lists of coefficients, lowest first: evaluation,
  division by \<open>X - a\<close>, sum, multiple, product with \<open>a - X\<close>, the product of the factors
  \<open>l - X\<close>, and the sum of a list of polynomials. \<open>coprimeDifferences q xs\<close> says that the
  difference of any two entries of \<open>xs\<close> at different positions is relatively prime to \<open>q\<close>.
\<close>

fun peval :: "int list \<Rightarrow> int \<Rightarrow> int" where
  "peval [] x = 0"
| "peval (c # cs) x = c + x * peval cs x"

fun pdiv :: "int \<Rightarrow> int list \<Rightarrow> int list" where
  "pdiv a [] = []"
| "pdiv a [c] = []"
| "pdiv a (c # c' # cs) = peval (c' # cs) a # pdiv a (c' # cs)"

fun padd :: "int list \<Rightarrow> int list \<Rightarrow> int list" where
  "padd [] qs = qs"
| "padd ps [] = ps"
| "padd (p # ps) (q # qs) = (p + q) # padd ps qs"

definition pscale :: "int \<Rightarrow> int list \<Rightarrow> int list" where
  "pscale c ps = map (\<lambda>p. c * p) ps"

definition plin :: "int \<Rightarrow> int list \<Rightarrow> int list" where
  "plin a ps = padd (pscale a ps) (0 # pscale (- 1) ps)"

fun pnum :: "int list \<Rightarrow> int list" where
  "pnum [] = [1]"
| "pnum (l # ls) = plin l (pnum ls)"

fun psum :: "int list list \<Rightarrow> int list" where
  "psum [] = []"
| "psum (p # ps) = padd p (psum ps)"

fun coprimeDifferences :: "int \<Rightarrow> int list \<Rightarrow> bool" where
  "coprimeDifferences q [] \<longleftrightarrow> True"
| "coprimeDifferences q (a # xs) \<longleftrightarrow> (\<forall>x\<in>set xs. coprime (x - a) q) \<and> coprimeDifferences q xs"

text \<open>
  A concrete run for the examples: the members 1, 2 and 3 under the small configuration.
  Member \<open>i\<close> holds for its channel with member \<open>j\<close> the ephemeral private key numbered
  \<open>10 * i + j\<close>. Member 2 has the polynomials with the coefficients \<open>[1, 2]\<close> and \<open>[2, 1]\<close>:
  its commitments are \<open>[4, 2]\<close>, its public key share points \<open>[2, 4]\<close>, its shares for
  member 1 are \<open>(0, 0)\<close> and for member 3 \<open>(1, 2)\<close>. Member 3 is the judge, and member 1 the
  accuser of member 2.
\<close>

definition emptyLog :: evidenceLog where
  "emptyLog = \<lparr>pubKeyMessageLog = Map.empty, peerSharesMessageLog = Map.empty\<rparr>"

definition member3 :: Member where
  "member3 = \<lparr>ID = 3, protocolConfig = cfg7, vss = vss7, evidenceLog = emptyLog,
     ephemeralKeyPairs = Map.empty, symmetricKeys = Map.empty, secretCoefficients = [],
     selfSecretShareS = None, selfSecretShareT = None,
     receivedValidSharesS = [], receivedValidSharesT = [],
     receivedValidPeerCommitments = Map.empty,
     masterPrivateKeyShare = None, member_shareT = None, publicKeySharePoints = [],
     receivedValidPeerPublicKeySharePoints = [],
     reconstructedIndividualPrivateKeys = [], reconstructedIndividualPublicKeys = [],
     groupPublicKey = None\<rparr>"

definition sharesMessage2 :: PeerSharesMessage where
  "sharesMessage2 = \<lparr>senderID = 2,
     shares = [1 \<mapsto> Encrypted (SymKey 12 21) 0 0, 3 \<mapsto> Encrypted (SymKey 23 32) 1 2]\<rparr>"

definition commitmentsMessage2 :: MemberCommitmentsMessage where
  "commitmentsMessage2 = \<lparr>senderID = 2, commitments = [4, 2]\<rparr>"

definition ephemeralMessage1 :: EphemeralPublicKeyMessage where
  "ephemeralMessage1 = \<lparr>senderID = 1, ephemeralPublicKeys = [2 \<mapsto> PubKey 12, 3 \<mapsto> PubKey 13]\<rparr>"

definition ephemeralMessage2 :: EphemeralPublicKeyMessage where
  "ephemeralMessage2 = \<lparr>senderID = 2, ephemeralPublicKeys = [1 \<mapsto> PubKey 21, 3 \<mapsto> PubKey 23]\<rparr>"

definition judgeLog :: evidenceLog where
  "judgeLog = \<lparr>pubKeyMessageLog = [1 \<mapsto> ephemeralMessage1, 2 \<mapsto> ephemeralMessage2],
     peerSharesMessageLog = [2 \<mapsto> sharesMessage2]\<rparr>"

definition judge :: Member where
  "judge = member3\<lparr>evidenceLog := judgeLog,
     receivedValidPeerCommitments := [2 \<mapsto> [4, 2]],
     receivedValidPeerPublicKeySharePoints := [(2, [2, 4])]\<rparr>"

definition accusation12 :: AccusationsMessage where
  "accusation12 = \<lparr>senderID = 1, accusedMembersKeys = [(2, PrivKey 12)]\<rparr>"

definition accusation13 :: AccusationsMessage where
  "accusation13 = \<lparr>senderID = 1, accusedMembersKeys = [(3, PrivKey 13)]\<rparr>"

definition accusation12_wrong_key :: AccusationsMessage where
  "accusation12_wrong_key = \<lparr>senderID = 1, accusedMembersKeys = [(2, PrivKey 13)]\<rparr>"

text \<open>
  States of member 3 for the examples of the single phases: its key pairs for the members 1
  and 2, the symmetric keys derived from them, the shares it accepted from the two members,
  and points messages of the members 1 and 2 that do not fit the shares member 3 holds
  from them. Member 4 sends commitments and no shares; the empty points message of member 1
  fits the share 0 that member 3 holds from it; and \<open>member3_unreduced\<close> holds an own share
  that is not reduced modulo \<open>Q = 3\<close>.
\<close>

definition keyPair31 :: KeyPair where
  "keyPair31 = \<lparr>PrivateKey = PrivKey 31, PublicKey = PubKey 31\<rparr>"

definition keyPair32 :: KeyPair where
  "keyPair32 = \<lparr>PrivateKey = PrivKey 32, PublicKey = PubKey 32\<rparr>"

definition member3_phase2 :: Member where
  "member3_phase2 = member3\<lparr>ephemeralKeyPairs := [1 \<mapsto> keyPair31]\<rparr>"

definition member3_phase8 :: Member where
  "member3_phase8 = member3\<lparr>ephemeralKeyPairs := [1 \<mapsto> keyPair31, 2 \<mapsto> keyPair32],
     receivedValidSharesS := [(1, 0), (2, 1)]\<rparr>"

definition pointsMessage1_bad :: MemberPublicKeySharePointsMessage where
  "pointsMessage1_bad = \<lparr>senderID = 1, message_publicKeySharePoints = [3]\<rparr>"

definition pointsMessage2 :: MemberPublicKeySharePointsMessage where
  "pointsMessage2 = \<lparr>senderID = 2, message_publicKeySharePoints = [2, 4]\<rparr>"

definition member3_phase12 :: Member where
  "member3_phase12 = member3\<lparr>selfSecretShareS := Some 1, selfSecretShareT := Some 2,
     receivedValidSharesS := [(1, 2), (2, 1)], receivedValidSharesT := [(1, 0), (2, 2)],
     publicKeySharePoints := [2, 4],
     receivedValidPeerPublicKeySharePoints := [(1, [4, 1]), (2, [2, 4])],
     reconstructedIndividualPublicKeys := [(4, 4)]\<rparr>"

definition sharesMessage1 :: PeerSharesMessage where
  "sharesMessage1 = \<lparr>senderID = 1,
     shares = [2 \<mapsto> Encrypted (SymKey 12 21) 1 1, 3 \<mapsto> Encrypted (SymKey 13 31) 2 0]\<rparr>"

definition commitmentsMessage4 :: MemberCommitmentsMessage where
  "commitmentsMessage4 = \<lparr>senderID = 4, commitments = [1, 1]\<rparr>"

definition member3_phase4 :: Member where
  "member3_phase4 = member3\<lparr>ephemeralKeyPairs := [1 \<mapsto> keyPair31, 2 \<mapsto> keyPair32],
     symmetricKeys := [1 \<mapsto> SymKey 13 31, 2 \<mapsto> SymKey 23 32]\<rparr>"

definition member3_unreduced :: Member where
  "member3_unreduced = member3\<lparr>selfSecretShareS := Some 5, selfSecretShareT := Some 0\<rparr>"

definition member3_phase8_points :: Member where
  "member3_phase8_points = member3_phase8\<lparr>publicKeySharePoints := [2, 4]\<rparr>"

definition pointsMessage1_empty :: MemberPublicKeySharePointsMessage where
  "pointsMessage1_empty = \<lparr>senderID = 1, message_publicKeySharePoints = []\<rparr>"

definition pointsMessage2_bad :: MemberPublicKeySharePointsMessage where
  "pointsMessage2_bad = \<lparr>senderID = 2, message_publicKeySharePoints = [3]\<rparr>"

text \<open>
  A second configuration, \<open>P = 23 = 2 * 11 + 1\<close> and \<open>Q = 11\<close> with the generators 2 and 3
  of the subgroup of order 11, and the shares that the disqualified member 2 gave to the
  members 1, 3 and 4 from the polynomial \<open>5 + 7 X\<close>.
\<close>

definition cfg23 :: DKG where
  "cfg23 = \<lparr>dkg_P = 23, dkg_Q = 11\<rparr>"

definition vss23 :: VSS where
  "vss23 = \<lparr>vss_G = 2, vss_H = 3\<rparr>"

definition member3_phase11 :: Member where
  "member3_phase11 = member3\<lparr>protocolConfig := cfg23, vss := vss23\<rparr>"

definition revealedShares2 :: DisqualifiedShares where
  "revealedShares2 = \<lparr>disqualifiedMemberID = 2, peerSharesS = [(1, 1), (3, 4), (4, 0)]\<rparr>"

definition keysOrder413 :: "DisqualifiedShares \<Rightarrow> MemberID list" where
  "keysOrder413 d = [4, 1, 3]"

section \<open>Arithmetic of the loops\<close>

lemma evaluateMemberShare_loop_eq:
  "0 < q \<Longrightarrow> evaluateMemberShare_loop q j k as r =
     Some (if as = [] then r else (r + polynomial_sum j k as) mod q)"
proof (induction as arbitrary: k r)
  case Nil
  then show ?case by simp
next
  case (Cons a as)
  then show ?case
    by (simp add: Int_Mod_def pow_def mod_add_left_eq add.assoc)
qed

lemma evaluateMemberShare_eq:
  "0 < dkg_Q cfg \<Longrightarrow> evaluateMemberShare cfg j as = Some (polynomial_sum j 0 as mod dkg_Q cfg)"
  by (simp add: evaluateMemberShare_def evaluateMemberShare_loop_eq)

lemma polynomial_sum_nonneg: "\<forall>a\<in>set as. 0 \<le> a \<Longrightarrow> 0 \<le> polynomial_sum j k as"
  by (induction as arbitrary: k) auto

lemma nat_pow: "nat (pow j k) = j ^ k"
  by (simp add: pow_def flip: of_nat_power)

lemma product_loop_eq:
  "0 < p \<Longrightarrow> product_loop p j k cs r =
     Some (if cs = [] then r else (r * exponent_product j k cs) mod p)"
proof (induction cs arbitrary: k r)
  case Nil
  then show ?case by simp
next
  case (Cons c cs)
  then show ?case
    by (simp add: Int_Mod_def Int_Exp_def nat_pow mod_mult_left_eq mod_mult_right_eq mult.assoc)
qed

text \<open>An exponent may be reduced modulo \<open>q\<close> under a base whose \<open>q\<close>-th power is 1.\<close>

lemma power_mod_order:
  fixes g :: int
  assumes "g ^ nat q mod p = 1 mod p" "0 < q" "0 \<le> x"
  shows "g ^ nat (x mod q) mod p = g ^ nat x mod p"
proof -
  have "nat x = nat q * nat (x div q) + nat (x mod q)"
    using assms(2,3)
    by (metis div_mult_mod_eq mult.commute nat_add_distrib nat_mult_distrib pos_imp_zdiv_nonneg_iff
        Euclidean_Rings.pos_mod_sign less_imp_le mult_nonneg_nonneg)
  then have "g ^ nat x = (g ^ nat q) ^ nat (x div q) * g ^ nat (x mod q)"
    by (metis power_add power_mult)
  then have "g ^ nat x mod p = ((g ^ nat q mod p) ^ nat (x div q) mod p) * (g ^ nat (x mod q)) mod p"
    by (simp add: mod_mult_left_eq power_mod)
  also have "\<dots> = g ^ nat (x mod q) mod p"
    by (simp add: assms(1) power_mod mod_mult_left_eq)
  finally show ?thesis by simp
qed

lemma CalculateCommitment_eq:
  "0 < m \<Longrightarrow> CalculateCommitment v s r m =
     Some (vss_G v ^ nat s * vss_H v ^ nat r mod m)"
  by (simp add: CalculateCommitment_def Int_Mod_def Int_Exp_def mod_mult_eq)

lemma nat_polynomial_sum_Cons:
  "0 \<le> a \<Longrightarrow> \<forall>x\<in>set as. 0 \<le> x \<Longrightarrow>
     nat (polynomial_sum j k (a # as)) = nat a * j ^ k + nat (polynomial_sum j (Suc k) as)"
  using polynomial_sum_nonneg [of as j "Suc k"]
  by (simp add: nat_add_distrib nat_mult_distrib nat_power_eq)

lemma exponent_product_commitments:
  assumes "0 < dkg_P cfg" "length as = length bs"
    and "\<forall>x\<in>set as. 0 \<le> x" "\<forall>x\<in>set bs. 0 \<le> x"
    and "calculateCommitments cfg v as bs = Some C"
  shows "exponent_product j k C mod dkg_P cfg =
     vss_G v ^ nat (polynomial_sum j k as) * vss_H v ^ nat (polynomial_sum j k bs) mod dkg_P cfg"
  using assms(2-)
proof (induction as bs arbitrary: k C rule: list_induct2)
  case Nil
  then show ?case by simp
next
  case (Cons a as b bs)
  from Cons.prems(3) obtain cs where
    C: "C = (vss_G v ^ nat a * vss_H v ^ nat b mod dkg_P cfg) # cs"
    and cs: "calculateCommitments cfg v as bs = Some cs"
    by (auto simp: CalculateCommitment_eq assms(1) split: option.splits)
  let ?g = "vss_G v" and ?h = "vss_H v" and ?p = "dkg_P cfg"
  let ?S = "nat (polynomial_sum j (Suc k) as)" and ?T = "nat (polynomial_sum j (Suc k) bs)"
  have IH: "exponent_product j (Suc k) cs mod ?p = ?g ^ ?S * ?h ^ ?T mod ?p"
    using Cons.IH [OF _ _ cs] Cons.prems by simp
  have "exponent_product j k C mod ?p =
      ((?g ^ nat a * ?h ^ nat b mod ?p) ^ (j ^ k) mod ?p) * (exponent_product j (Suc k) cs mod ?p) mod ?p"
    by (simp add: C mod_mult_eq)
  also have "\<dots> = ((?g ^ nat a * ?h ^ nat b) ^ (j ^ k)) * (?g ^ ?S * ?h ^ ?T) mod ?p"
    by (simp add: IH power_mod mod_mult_eq)
  also have "((?g ^ nat a * ?h ^ nat b) ^ (j ^ k)) * (?g ^ ?S * ?h ^ ?T) =
      ?g ^ (nat a * j ^ k + ?S) * ?h ^ (nat b * j ^ k + ?T)"
    by (simp add: power_add power_mult power_mult_distrib)
  finally show ?case
    using Cons.prems
      nat_polynomial_sum_Cons [of a as j k] nat_polynomial_sum_Cons [of b bs j k]
    by simp
qed

lemma calculateCommitments_Some:
  "length as = length bs \<Longrightarrow> 0 < dkg_P cfg \<Longrightarrow> \<exists>C. calculateCommitments cfg v as bs = Some C"
  by (induction as bs rule: list_induct2) (auto simp: CalculateCommitment_eq)

lemma calculateCommitments_Nil:
  "calculateCommitments cfg v as bs = Some [] \<Longrightarrow> as = []"
  by (cases as; cases bs) (auto split: option.splits)

section \<open>The loops of the verification and resolution phases\<close>

lemma body_unmatched:
  "\<forall>s\<in>set sharesMessages. senderID s \<noteq> senderID c \<Longrightarrow>
     VerifyReceivedSharesAndCommitmentsMessages_body cvm sharesMessages c accused =
       Inl (CannotFindSharesMessage (senderID c))"
proof -
  assume "\<forall>s\<in>set sharesMessages. senderID s \<noteq> senderID c"
  then have "find (\<lambda>sharesMessage. senderID sharesMessage = senderID c) sharesMessages = None"
    by (simp add: find_None_iff)
  then show ?thesis
    by (simp add: VerifyReceivedSharesAndCommitmentsMessages_body_def)
qed

lemma VerifyReceived_loop_append:
  "VerifyReceivedSharesAndCommitmentsMessages_loop cvm sharesMessages (pre @ rest) accused =
     (case VerifyReceivedSharesAndCommitmentsMessages_loop cvm sharesMessages pre accused of
        Inl err \<Rightarrow> Inl err
      | Inr (cvm', accused') \<Rightarrow>
          VerifyReceivedSharesAndCommitmentsMessages_loop cvm' sharesMessages rest accused')"
  by (induction pre arbitrary: cvm accused) (auto split: sum.splits)

lemma VerifyReceived_loop_unmatched:
  "c \<in> set commitmentsMessages \<Longrightarrow> \<forall>s\<in>set sharesMessages. senderID s \<noteq> senderID c \<Longrightarrow>
     \<exists>err. VerifyReceivedSharesAndCommitmentsMessages_loop cvm sharesMessages commitmentsMessages accused = Inl err"
proof (induction commitmentsMessages arbitrary: cvm accused)
  case Nil
  then show ?case by simp
next
  case (Cons c' cs)
  show ?case
  proof (cases "VerifyReceivedSharesAndCommitmentsMessages_body cvm sharesMessages c' accused")
    case (Inl err)
    then show ?thesis by simp
  next
    case (Inr r)
    with Cons.prems(2) have "c' \<noteq> c"
      by (auto simp: body_unmatched)
    with Cons.prems have "c \<in> set cs" by simp
    from Cons.IH [OF this Cons.prems(2)] Inr show ?thesis
      by (cases r) simp
  qed
qed

lemma Int_Mod_Some: "y \<noteq> 0 \<Longrightarrow> Int_Mod x y = Some (x mod \<bar>y\<bar>)"
  by (simp add: Int_Mod_def)

lemma product_loop_defined: "p \<noteq> 0 \<Longrightarrow> \<exists>r. product_loop p j k cs r0 = Some r"
  by (induction cs arbitrary: k r0) (simp_all add: Int_Mod_Some)

lemma areSharesValidAgainstCommitments_defined:
  "dkg_P cfg \<noteq> 0 \<Longrightarrow> areSharesValidAgainstCommitments cfg v s t C j \<noteq> None"
  using product_loop_defined [of "dkg_P cfg" j 0 C 1]
  by (auto simp: areSharesValidAgainstCommitments_def CalculateCommitment_def Int_Mod_Some)

lemma isShareValidAgainstPublicKeySharePoints_defined:
  "dkg_P cfg \<noteq> 0 \<Longrightarrow> isShareValidAgainstPublicKeySharePoints cfg v j (Some s) A \<noteq> None"
  using product_loop_defined [of "dkg_P cfg" j 0 A 1]
  by (auto simp: isShareValidAgainstPublicKeySharePoints_def)

lemma ResolveSecretShares_body_no_panic:
  "dkg_P (protocolConfig sjm) \<noteq> 0 \<Longrightarrow>
     ResolveSecretSharesAccusationsMessages_body sjm accuserID entry dq \<noteq> Inl Panic"
  by (auto simp: ResolveSecretSharesAccusationsMessages_body_def Let_def
      areSharesValidAgainstCommitments_defined
      split: sum.splits option.splits bool.splits)

lemma ResolveSecretShares_inner_no_panic:
  "dkg_P (protocolConfig sjm) \<noteq> 0 \<Longrightarrow>
     ResolveSecretSharesAccusationsMessages_inner sjm accuserID entries dq \<noteq> Inl Panic"
  by (induction entries arbitrary: dq)
    (auto simp: ResolveSecretShares_body_no_panic split: sum.splits)

lemma ResolveSecretShares_loop_no_panic:
  "dkg_P (protocolConfig sjm) \<noteq> 0 \<Longrightarrow>
     ResolveSecretSharesAccusationsMessages_loop sjm messages dq \<noteq> Inl Panic"
  by (induction messages arbitrary: dq)
    (auto simp: ResolveSecretShares_inner_no_panic split: sum.splits)

lemma ResolveSecretShares_inner_fails:
  "entry \<in> set entries \<Longrightarrow>
   (\<forall>dq. \<exists>err. ResolveSecretSharesAccusationsMessages_body sjm accuserID entry dq = Inl err) \<Longrightarrow>
     \<exists>err. ResolveSecretSharesAccusationsMessages_inner sjm accuserID entries dq = Inl err"
proof (induction entries arbitrary: dq)
  case Nil
  then show ?case by simp
next
  case (Cons e es)
  show ?case
  proof (cases "ResolveSecretSharesAccusationsMessages_body sjm accuserID e dq")
    case (Inl err)
    then show ?thesis by simp
  next
    case (Inr dq')
    have "e \<noteq> entry"
    proof
      assume "e = entry"
      moreover from Cons.prems(2) obtain err where
        "ResolveSecretSharesAccusationsMessages_body sjm accuserID entry dq = Inl err" by blast
      ultimately show False using Inr by simp
    qed
    with Cons.prems(1) have "entry \<in> set es" by simp
    from Cons.IH [OF this Cons.prems(2)] Inr show ?thesis by simp
  qed
qed

lemma ResolveSecretShares_loop_fails:
  "message \<in> set messages \<Longrightarrow> entry \<in> set (accusedMembersKeys message) \<Longrightarrow>
   (\<forall>dq. \<exists>err. ResolveSecretSharesAccusationsMessages_body sjm (senderID message) entry dq = Inl err) \<Longrightarrow>
     \<exists>err. ResolveSecretSharesAccusationsMessages_loop sjm messages dq = Inl err"
proof (induction messages arbitrary: dq)
  case Nil
  then show ?case by simp
next
  case (Cons m ms)
  show ?case
  proof (cases "ResolveSecretSharesAccusationsMessages_inner sjm (senderID m) (accusedMembersKeys m) dq")
    case (Inl err)
    then show ?thesis by simp
  next
    case (Inr dq')
    have "m \<noteq> message"
    proof
      assume "m = message"
      with ResolveSecretShares_inner_fails [OF Cons.prems(2,3), of dq] Inr show False by simp
    qed
    with Cons.prems(1) have "message \<in> set ms" by simp
    from Cons.IH [OF this Cons.prems(2,3)] Inr show ?thesis by simp
  qed
qed

lemma ResolvePublicKeySharePoints_body_no_panic:
  "dkg_P (protocolConfig pjm) \<noteq> 0 \<Longrightarrow>
     ResolvePublicKeySharePointsAccusationsMessages_body pjm accuserID entry dq \<noteq> Inl Panic"
  by (auto simp: ResolvePublicKeySharePointsAccusationsMessages_body_def Let_def
      isShareValidAgainstPublicKeySharePoints_defined
      split: sum.splits option.splits bool.splits)

lemma ResolvePublicKeySharePoints_inner_no_panic:
  "dkg_P (protocolConfig pjm) \<noteq> 0 \<Longrightarrow>
     ResolvePublicKeySharePointsAccusationsMessages_inner pjm accuserID entries dq \<noteq> Inl Panic"
  by (induction entries arbitrary: dq)
    (auto simp: ResolvePublicKeySharePoints_body_no_panic split: sum.splits)

lemma ResolvePublicKeySharePoints_loop_no_panic:
  "dkg_P (protocolConfig pjm) \<noteq> 0 \<Longrightarrow>
     ResolvePublicKeySharePointsAccusationsMessages_loop pjm messages dq \<noteq> Inl Panic"
  by (induction messages arbitrary: dq)
    (auto simp: ResolvePublicKeySharePoints_inner_no_panic split: sum.splits)

lemma ResolvePublicKeySharePoints_inner_fails:
  "entry \<in> set entries \<Longrightarrow>
   (\<forall>dq. \<exists>err. ResolvePublicKeySharePointsAccusationsMessages_body pjm accuserID entry dq = Inl err) \<Longrightarrow>
     \<exists>err. ResolvePublicKeySharePointsAccusationsMessages_inner pjm accuserID entries dq = Inl err"
proof (induction entries arbitrary: dq)
  case Nil
  then show ?case by simp
next
  case (Cons e es)
  show ?case
  proof (cases "ResolvePublicKeySharePointsAccusationsMessages_body pjm accuserID e dq")
    case (Inl err)
    then show ?thesis by simp
  next
    case (Inr dq')
    have "e \<noteq> entry"
    proof
      assume "e = entry"
      moreover from Cons.prems(2) obtain err where
        "ResolvePublicKeySharePointsAccusationsMessages_body pjm accuserID entry dq = Inl err" by blast
      ultimately show False using Inr by simp
    qed
    with Cons.prems(1) have "entry \<in> set es" by simp
    from Cons.IH [OF this Cons.prems(2)] Inr show ?thesis by simp
  qed
qed

lemma ResolvePublicKeySharePoints_loop_fails:
  "message \<in> set messages \<Longrightarrow> entry \<in> set (accusedMembersKeys message) \<Longrightarrow>
   (\<forall>dq. \<exists>err. ResolvePublicKeySharePointsAccusationsMessages_body pjm (senderID message) entry dq = Inl err) \<Longrightarrow>
     \<exists>err. ResolvePublicKeySharePointsAccusationsMessages_loop pjm messages dq = Inl err"
proof (induction messages arbitrary: dq)
  case Nil
  then show ?case by simp
next
  case (Cons m ms)
  show ?case
  proof (cases "ResolvePublicKeySharePointsAccusationsMessages_inner pjm (senderID m) (accusedMembersKeys m) dq")
    case (Inl err)
    then show ?thesis by simp
  next
    case (Inr dq')
    have "m \<noteq> message"
    proof
      assume "m = message"
      with ResolvePublicKeySharePoints_inner_fails [OF Cons.prems(2,3), of dq] Inr show False by simp
    qed
    with Cons.prems(1) have "message \<in> set ms" by simp
    from Cons.IH [OF this Cons.prems(2,3)] Inr show ?thesis by simp
  qed
qed

lemmas scenario_defs = judge_def member3_def judgeLog_def emptyLog_def cfg7_def vss7_def
  ephemeralMessage1_def ephemeralMessage2_def sharesMessage2_def commitmentsMessage2_def
  accusation12_def accusation13_def accusation12_wrong_key_def

lemmas resolve_defs =
  ResolveSecretSharesAccusationsMessages_def ResolveSecretSharesAccusationsMessages_body_def
  ResolvePublicKeySharePointsAccusationsMessages_def ResolvePublicKeySharePointsAccusationsMessages_body_def
  recoverSymmetricKey_def recoverShares_def ephemeralPublicKeyMessage_def peerSharesMessage_def
  decryptShareS_def decryptShareT_def areSharesValidAgainstCommitments_def
  isShareValidAgainstPublicKeySharePoints_def CalculateCommitment_def Int_Mod_def Int_Exp_def pow_def

lemma ResolveSecretShares_inner_append:
  "ResolveSecretSharesAccusationsMessages_inner sjm accuserID (es1 @ es2) dq =
     (case ResolveSecretSharesAccusationsMessages_inner sjm accuserID es1 dq of
        Inl err \<Rightarrow> Inl err
      | Inr dq' \<Rightarrow> ResolveSecretSharesAccusationsMessages_inner sjm accuserID es2 dq')"
  by (induction es1 arbitrary: dq) (auto split: sum.splits)

lemma ResolveSecretShares_loop_append:
  "ResolveSecretSharesAccusationsMessages_loop sjm (ms1 @ ms2) dq =
     (case ResolveSecretSharesAccusationsMessages_loop sjm ms1 dq of
        Inl err \<Rightarrow> Inl err
      | Inr dq' \<Rightarrow> ResolveSecretSharesAccusationsMessages_loop sjm ms2 dq')"
  by (induction ms1 arbitrary: dq) (auto split: sum.splits)

lemma ResolveSecretShares_body_extends:
  "ResolveSecretSharesAccusationsMessages_body sjm accuserID entry dq = Inr dq' \<Longrightarrow>
     \<exists>m. dq' = dq @ [m]"
  by (auto simp: ResolveSecretSharesAccusationsMessages_body_def Let_def
      split: if_splits sum.splits option.splits bool.splits)

lemma ResolveSecretShares_inner_extends:
  "ResolveSecretSharesAccusationsMessages_inner sjm accuserID es dq = Inr dq' \<Longrightarrow>
     \<exists>later. dq' = dq @ later"
proof (induction es arbitrary: dq)
  case Nil
  then show ?case by simp
next
  case (Cons e es)
  then show ?case
    by (fastforce split: sum.splits dest: ResolveSecretShares_body_extends)
qed

lemma ResolveSecretShares_loop_extends:
  "ResolveSecretSharesAccusationsMessages_loop sjm ms dq = Inr dq' \<Longrightarrow>
     \<exists>later. dq' = dq @ later"
proof (induction ms arbitrary: dq)
  case Nil
  then show ?case by simp
next
  case (Cons m ms)
  then show ?case
    by (fastforce split: sum.splits dest: ResolveSecretShares_inner_extends)
qed

lemma Ecdh_mismatch:
  "a' \<noteq> a \<Longrightarrow> Ecdh (PrivKey a') (PubKey b) \<noteq> Ecdh (PrivKey b) (PubKey a)"
  by (auto simp: min_def max_def split: if_splits)

lemma Ecdh_symmetric: "Ecdh (PrivKey a) (PubKey b) = Ecdh (PrivKey b) (PubKey a)"
  by (simp add: min.commute max.commute)

lemma recoverShares_wrong_key:
  assumes "peerSharesMessage log accusedID = Some psm"
    and "shares psm accuserID = Some (Encrypted k s t)"
    and "k' \<noteq> k"
  shows "recoverShares log accusedID accuserID k' = Inl (CannotDecryptShareS AuthFailed)"
  using assms by (simp add: recoverShares_def decryptShareS_def)

lemma GenerateSymmetricKeys_body_None:
  assumes "GenerateSymmetricKeys_body sm msg = (sm1, None)"
  shows "\<exists>kp pk. ephemeralKeyPairs sm (senderID msg) = Some kp
           \<and> ephemeralPublicKeys msg (ID sm) = Some pk
           \<and> sm1 = sm\<lparr>evidenceLog := PutEphemeralMessage (evidenceLog sm) msg,
                        symmetricKeys := (symmetricKeys sm)(senderID msg \<mapsto> Ecdh (PrivateKey kp) pk)\<rparr>"
  using assms
  by (auto simp: GenerateSymmetricKeys_body_def Let_def split: option.splits)

lemma GenerateSymmetricKeys_body_missing:
  assumes "GenerateSymmetricKeys_body sm msg = (sm1, Some (EphemeralKeyPairDoesNotExist j))"
  shows "j = senderID msg \<and> ephemeralKeyPairs sm j = None
           \<and> sm1 = sm\<lparr>evidenceLog := PutEphemeralMessage (evidenceLog sm) msg\<rparr>"
  using assms
  by (auto simp: GenerateSymmetricKeys_body_def Let_def split: option.splits)

lemma PutEphemeralMessage_recorded:
  "pubKeyMessageLog (PutEphemeralMessage log msg) (senderID msg) \<noteq> None"
  by (simp add: PutEphemeralMessage_def split: option.splits)

lemma PutEphemeralMessage_first:
  "pubKeyMessageLog log (senderID msg) = None \<Longrightarrow>
     pubKeyMessageLog (PutEphemeralMessage log msg) (senderID msg) = Some msg"
  by (simp add: PutEphemeralMessage_def)

lemma PutEphemeralMessage_other:
  "k \<noteq> senderID msg \<Longrightarrow>
     pubKeyMessageLog (PutEphemeralMessage log msg) k = pubKeyMessageLog log k"
  by (simp add: PutEphemeralMessage_def split: option.splits)

lemma GenerateSymmetricKeys_success:
  assumes "GenerateSymmetricKeys sm msgs = (smp, None)"
  shows "ephemeralKeyPairs smp = ephemeralKeyPairs sm
       \<and> (\<forall>m\<in>set msgs. ephemeralKeyPairs sm (senderID m) \<noteq> None \<and> symmetricKeys smp (senderID m) \<noteq> None)
       \<and> (\<forall>k. k \<notin> senderID ` set msgs \<longrightarrow>
             pubKeyMessageLog (evidenceLog smp) k = pubKeyMessageLog (evidenceLog sm) k
             \<and> symmetricKeys smp k = symmetricKeys sm k)
       \<and> (\<forall>k. symmetricKeys sm k \<noteq> None \<longrightarrow> symmetricKeys smp k \<noteq> None)"
  using assms
proof (induction msgs arbitrary: sm)
  case Nil
  then show ?case by simp
next
  case (Cons msg msgs)
  from Cons.prems obtain sm1 where
    body: "GenerateSymmetricKeys_body sm msg = (sm1, None)"
    and rest: "GenerateSymmetricKeys sm1 msgs = (smp, None)"
    by (auto split: prod.splits option.splits)
  from GenerateSymmetricKeys_body_None [OF body] obtain kp pk where
    kp: "ephemeralKeyPairs sm (senderID msg) = Some kp"
    and sm1: "sm1 = sm\<lparr>evidenceLog := PutEphemeralMessage (evidenceLog sm) msg,
                symmetricKeys := (symmetricKeys sm)(senderID msg \<mapsto> Ecdh (PrivateKey kp) pk)\<rparr>"
    by blast
  note IH = Cons.IH [OF rest]
  have 1: "ephemeralKeyPairs smp = ephemeralKeyPairs sm"
    using IH sm1 by simp
  have 4: "\<forall>k. symmetricKeys sm k \<noteq> None \<longrightarrow> symmetricKeys smp k \<noteq> None"
    using IH sm1 by simp
  have 2: "\<forall>m\<in>set (msg # msgs). ephemeralKeyPairs sm (senderID m) \<noteq> None
      \<and> symmetricKeys smp (senderID m) \<noteq> None"
    using IH sm1 kp by simp
  have 3: "\<forall>k. k \<notin> senderID ` set (msg # msgs) \<longrightarrow>
      pubKeyMessageLog (evidenceLog smp) k = pubKeyMessageLog (evidenceLog sm) k
      \<and> symmetricKeys smp k = symmetricKeys sm k"
    using IH sm1 by (simp add: PutEphemeralMessage_other)
  from 1 2 3 4 show ?case by blast
qed

lemma GenerateSymmetricKeys_failure:
  assumes "GenerateSymmetricKeys sm msgs = (sm', Some err)"
  shows "\<exists>pre msg post smp. msgs = pre @ msg # post
           \<and> GenerateSymmetricKeys sm pre = (smp, None)
           \<and> GenerateSymmetricKeys_body smp msg = (sm', Some err)"
  using assms
proof (induction msgs arbitrary: sm)
  case Nil
  then show ?case by simp
next
  case (Cons m ms)
  obtain sm1 r where body: "GenerateSymmetricKeys_body sm m = (sm1, r)"
    by (cases "GenerateSymmetricKeys_body sm m")
  show ?case
  proof (cases r)
    case None
    with Cons.prems body have "GenerateSymmetricKeys sm1 ms = (sm', Some err)"
      by simp
    from Cons.IH [OF this] obtain pre msg post smp where
      "ms = pre @ msg # post" "GenerateSymmetricKeys sm1 pre = (smp, None)"
      "GenerateSymmetricKeys_body smp msg = (sm', Some err)"
      by blast
    with body None have "m # ms = (m # pre) @ msg # post
        \<and> GenerateSymmetricKeys sm (m # pre) = (smp, None)
        \<and> GenerateSymmetricKeys_body smp msg = (sm', Some err)"
      by simp
    then show ?thesis by blast
  next
    case (Some e)
    with Cons.prems body have "m # ms = [] @ m # ms
        \<and> GenerateSymmetricKeys sm [] = (sm, None)
        \<and> GenerateSymmetricKeys_body sm m = (sm', Some err)"
      by simp
    then show ?thesis by blast
  qed
qed

lemma pointsValid_sameInputs: "sameInputs sm sm' \<Longrightarrow> pointsValid sm' m = pointsValid sm m"
  by (simp add: pointsValid_def sameInputs_def)

lemma VerifyPublicKeySharePoints_body_eq:
  "VerifyPublicKeySharePoints_body sm m acc =
     (case pointsValid sm m of
        None \<Rightarrow> Inl Panic
      | Some False \<Rightarrow>
          (case ephemeralKeyPairs sm (senderID m) of
             None \<Rightarrow> Inl Panic
           | Some keyPair \<Rightarrow> Inr (sm, AList.update (senderID m) (PrivateKey keyPair) acc))
      | Some True \<Rightarrow>
          Inr (sm\<lparr>receivedValidPeerPublicKeySharePoints :=
                     AList.update (senderID m) (message_publicKeySharePoints m)
                       (receivedValidPeerPublicKeySharePoints sm)\<rparr>, acc))"
  by (simp add: VerifyPublicKeySharePoints_body_def pointsValid_def)

lemma VerifyPublicKeySharePoints_body_step:
  assumes "pointsValid sm m = Some valid" and "ephemeralKeyPairs sm (senderID m) = Some keyPair"
  shows "\<exists>sm1 acc1. VerifyPublicKeySharePoints_body sm m acc = Inr (sm1, acc1) \<and> sameInputs sm sm1
     \<and> (if valid
         then map_of (receivedValidPeerPublicKeySharePoints sm1) =
                (map_of (receivedValidPeerPublicKeySharePoints sm))(senderID m \<mapsto> message_publicKeySharePoints m)
              \<and> acc1 = acc
         else map_of acc1 = (map_of acc)(senderID m \<mapsto> PrivateKey keyPair)
              \<and> receivedValidPeerPublicKeySharePoints sm1 = receivedValidPeerPublicKeySharePoints sm)"
  using assms
  by (cases valid) (simp_all add: VerifyPublicKeySharePoints_body_eq sameInputs_def update_conv')

lemma VerifyPublicKeySharePoints_loop_result:
  assumes "\<forall>m\<in>set msgs. pointsValid sm m \<noteq> None \<and> ephemeralKeyPairs sm (senderID m) \<noteq> None"
  shows "\<exists>sm' acc'. VerifyPublicKeySharePoints_loop sm msgs acc = Inr (sm', acc') \<and> sameInputs sm sm'
     \<and> (\<forall>k. k \<notin> senderID ` set msgs \<longrightarrow>
           map_of acc' k = map_of acc k
           \<and> map_of (receivedValidPeerPublicKeySharePoints sm') k =
               map_of (receivedValidPeerPublicKeySharePoints sm) k)
     \<and> (\<forall>k. (map_of acc k \<noteq> None \<longrightarrow> map_of acc' k \<noteq> None)
           \<and> (map_of (receivedValidPeerPublicKeySharePoints sm) k \<noteq> None \<longrightarrow>
                map_of (receivedValidPeerPublicKeySharePoints sm') k \<noteq> None))
     \<and> (\<forall>m\<in>set msgs. map_of acc' (senderID m) \<noteq> None
           \<or> map_of (receivedValidPeerPublicKeySharePoints sm') (senderID m) \<noteq> None)
     \<and> (distinct (map senderID msgs) \<longrightarrow>
          (\<forall>m\<in>set msgs.
             (pointsValid sm m = Some True \<longrightarrow>
                map_of (receivedValidPeerPublicKeySharePoints sm') (senderID m) =
                  Some (message_publicKeySharePoints m)
                \<and> map_of acc' (senderID m) = map_of acc (senderID m))
           \<and> (pointsValid sm m = Some False \<longrightarrow>
                map_of acc' (senderID m) =
                  map_option PrivateKey (ephemeralKeyPairs sm (senderID m))
                \<and> map_of (receivedValidPeerPublicKeySharePoints sm') (senderID m) =
                    map_of (receivedValidPeerPublicKeySharePoints sm) (senderID m))))"
  using assms
proof (induction msgs arbitrary: sm acc)
  case Nil
  then show ?case by (simp add: sameInputs_def)
next
  case (Cons m msgs)
  from Cons.prems obtain valid keyPair where
    valid: "pointsValid sm m = Some valid" and kp: "ephemeralKeyPairs sm (senderID m) = Some keyPair"
    by auto
  from VerifyPublicKeySharePoints_body_step [OF valid kp, of acc] obtain sm1 acc1 where
    body: "VerifyPublicKeySharePoints_body sm m acc = Inr (sm1, acc1)"
    and same: "sameInputs sm sm1"
    and step: "if valid
         then map_of (receivedValidPeerPublicKeySharePoints sm1) =
                (map_of (receivedValidPeerPublicKeySharePoints sm))(senderID m \<mapsto> message_publicKeySharePoints m)
              \<and> acc1 = acc
         else map_of acc1 = (map_of acc)(senderID m \<mapsto> PrivateKey keyPair)
              \<and> receivedValidPeerPublicKeySharePoints sm1 = receivedValidPeerPublicKeySharePoints sm"
    by blast
  have prems1: "\<forall>m\<in>set msgs. pointsValid sm1 m \<noteq> None \<and> ephemeralKeyPairs sm1 (senderID m) \<noteq> None"
    using Cons.prems same by (simp add: pointsValid_sameInputs) (simp add: sameInputs_def)
  from Cons.IH [OF prems1, of acc1] obtain sm' acc' where
    loop: "VerifyPublicKeySharePoints_loop sm1 msgs acc1 = Inr (sm', acc')"
    and same': "sameInputs sm1 sm'"
    and frame: "\<forall>k. k \<notin> senderID ` set msgs \<longrightarrow>
           map_of acc' k = map_of acc1 k
           \<and> map_of (receivedValidPeerPublicKeySharePoints sm') k =
               map_of (receivedValidPeerPublicKeySharePoints sm1) k"
    and mono: "\<forall>k. (map_of acc1 k \<noteq> None \<longrightarrow> map_of acc' k \<noteq> None)
           \<and> (map_of (receivedValidPeerPublicKeySharePoints sm1) k \<noteq> None \<longrightarrow>
                map_of (receivedValidPeerPublicKeySharePoints sm') k \<noteq> None)"
    and handled: "\<forall>m\<in>set msgs. map_of acc' (senderID m) \<noteq> None
           \<or> map_of (receivedValidPeerPublicKeySharePoints sm') (senderID m) \<noteq> None"
    and exact: "distinct (map senderID msgs) \<longrightarrow>
          (\<forall>m\<in>set msgs.
             (pointsValid sm1 m = Some True \<longrightarrow>
                map_of (receivedValidPeerPublicKeySharePoints sm') (senderID m) =
                  Some (message_publicKeySharePoints m)
                \<and> map_of acc' (senderID m) = map_of acc1 (senderID m))
           \<and> (pointsValid sm1 m = Some False \<longrightarrow>
                map_of acc' (senderID m) =
                  map_option PrivateKey (ephemeralKeyPairs sm1 (senderID m))
                \<and> map_of (receivedValidPeerPublicKeySharePoints sm') (senderID m) =
                    map_of (receivedValidPeerPublicKeySharePoints sm1) (senderID m)))"
    by blast
  have r1: "VerifyPublicKeySharePoints_loop sm (m # msgs) acc = Inr (sm', acc')"
    using body loop by simp
  have r2: "sameInputs sm sm'"
    using same same' by (simp add: sameInputs_def)
  have r3: "\<forall>k. k \<notin> senderID ` set (m # msgs) \<longrightarrow>
           map_of acc' k = map_of acc k
           \<and> map_of (receivedValidPeerPublicKeySharePoints sm') k =
               map_of (receivedValidPeerPublicKeySharePoints sm) k"
    using frame step by (cases valid) auto
  have r4: "\<forall>k. (map_of acc k \<noteq> None \<longrightarrow> map_of acc' k \<noteq> None)
           \<and> (map_of (receivedValidPeerPublicKeySharePoints sm) k \<noteq> None \<longrightarrow>
                map_of (receivedValidPeerPublicKeySharePoints sm') k \<noteq> None)"
    using mono step by (cases valid) auto
  have r5: "\<forall>m\<in>set (m # msgs). map_of acc' (senderID m) \<noteq> None
           \<or> map_of (receivedValidPeerPublicKeySharePoints sm') (senderID m) \<noteq> None"
    using handled mono step by (cases valid) auto
  have r6: "distinct (map senderID (m # msgs)) \<longrightarrow>
          (\<forall>x\<in>set (m # msgs).
             (pointsValid sm x = Some True \<longrightarrow>
                map_of (receivedValidPeerPublicKeySharePoints sm') (senderID x) =
                  Some (message_publicKeySharePoints x)
                \<and> map_of acc' (senderID x) = map_of acc (senderID x))
           \<and> (pointsValid sm x = Some False \<longrightarrow>
                map_of acc' (senderID x) =
                  map_option PrivateKey (ephemeralKeyPairs sm (senderID x))
                \<and> map_of (receivedValidPeerPublicKeySharePoints sm') (senderID x) =
                    map_of (receivedValidPeerPublicKeySharePoints sm) (senderID x)))"
  proof (intro impI ballI)
    fix x
    assume d: "distinct (map senderID (m # msgs))" and x: "x \<in> set (m # msgs)"
    then have notin: "senderID m \<notin> senderID ` set msgs" and d': "distinct (map senderID msgs)"
      by auto
    have eq1: "pointsValid sm1 y = pointsValid sm y" for y
      using same by (rule pointsValid_sameInputs)
    have eq2: "ephemeralKeyPairs sm1 = ephemeralKeyPairs sm"
      using same by (simp add: sameInputs_def)
    show "(pointsValid sm x = Some True \<longrightarrow>
                map_of (receivedValidPeerPublicKeySharePoints sm') (senderID x) =
                  Some (message_publicKeySharePoints x)
                \<and> map_of acc' (senderID x) = map_of acc (senderID x))
           \<and> (pointsValid sm x = Some False \<longrightarrow>
                map_of acc' (senderID x) =
                  map_option PrivateKey (ephemeralKeyPairs sm (senderID x))
                \<and> map_of (receivedValidPeerPublicKeySharePoints sm') (senderID x) =
                    map_of (receivedValidPeerPublicKeySharePoints sm) (senderID x))"
    proof (cases "x = m")
      case True
      with frame notin step valid kp show ?thesis
        by (cases valid) auto
    next
      case False
      with x have xin: "x \<in> set msgs" by simp
      with notin have ne: "senderID x \<noteq> senderID m" by (metis imageI)
      from exact d' xin have
        "(pointsValid sm x = Some True \<longrightarrow>
                map_of (receivedValidPeerPublicKeySharePoints sm') (senderID x) =
                  Some (message_publicKeySharePoints x)
                \<and> map_of acc' (senderID x) = map_of acc1 (senderID x))
           \<and> (pointsValid sm x = Some False \<longrightarrow>
                map_of acc' (senderID x) =
                  map_option PrivateKey (ephemeralKeyPairs sm (senderID x))
                \<and> map_of (receivedValidPeerPublicKeySharePoints sm') (senderID x) =
                    map_of (receivedValidPeerPublicKeySharePoints sm1) (senderID x))"
        by (simp add: eq1 eq2)
      with step ne show ?thesis
        by (cases valid) auto
    qed
  qed
  from r1 r2 r3 r4 r5 r6 show ?case by (intro exI conjI)
qed

lemma CombineMemberShares_loop_eq:
  "q \<noteq> 0 \<Longrightarrow> CombineMemberShares_loop q (Some c) ss =
     Inr (Some (if ss = [] then c else (c + sum_list ss) mod \<bar>q\<bar>))"
proof (induction ss arbitrary: c)
  case Nil
  then show ?case by simp
next
  case (Cons s ss)
  then show ?case
    by (simp add: Int_Mod_Some mod_add_left_eq add.assoc)
qed

lemma CombineGroupPublicKey_loop_eq:
  "p \<noteq> 0 \<Longrightarrow> CombineGroupPublicKey_loop p g ks =
     Some (if ks = [] then g else (g * prod_list ks) mod \<bar>p\<bar>)"
proof (induction ks arbitrary: g)
  case Nil
  then show ?case by simp
next
  case (Cons k ks)
  then show ?case
    by (simp add: Int_Mod_Some mod_mult_left_eq mult.assoc)
qed

lemma receivedValidPeerIndividualPublicKeys_loop_eq:
  "receivedValidPeerIndividualPublicKeys_loop entries =
     (if \<forall>e\<in>set entries. snd e \<noteq> [] then Some (map (\<lambda>e. hd (snd e)) entries) else None)"
  by (induction entries rule: receivedValidPeerIndividualPublicKeys_loop.induct) auto

lemma prod_list_permutation:
  fixes xs ys :: "'a list" and f :: "'a \<Rightarrow> int"
  assumes "mset xs = mset ys"
  shows "prod_list (map f xs) = prod_list (map f ys)"
proof -
  from assms have "mset (map f xs) = mset (map f ys)" by simp
  then show ?thesis by (metis prod_mset_prod_list)
qed

lemma CombineMemberShares_eq:
  assumes "dkg_Q (protocolConfig qm) \<noteq> 0"
    and "selfSecretShareS qm = Some s" and "selfSecretShareT qm = Some t"
  shows "CombineMemberShares qm =
     Inr (qm\<lparr>masterPrivateKeyShare :=
               Some (if receivedValidSharesS qm = [] then s
                     else (s + sum_list (map snd (receivedValidSharesS qm))) mod \<bar>dkg_Q (protocolConfig qm)\<bar>),
             member_shareT :=
               Some (if receivedValidSharesT qm = [] then t
                     else (t + sum_list (map snd (receivedValidSharesT qm))) mod \<bar>dkg_Q (protocolConfig qm)\<bar>)\<rparr>)"
  using assms by (simp add: CombineMemberShares_def CombineMemberShares_loop_eq)

lemma CombineGroupPublicKey_eq:
  assumes "dkg_P (protocolConfig rm) \<noteq> 0"
    and "publicKeySharePoints rm = y # points"
    and "\<forall>e\<in>set (receivedValidPeerPublicKeySharePoints rm). snd e \<noteq> []"
  shows "CombineGroupPublicKey rm =
     Inr (rm\<lparr>groupPublicKey :=
       Some (if receivedValidPeerPublicKeySharePoints rm = [] \<and> reconstructedIndividualPublicKeys rm = []
             then y
             else (y * prod_list (map (\<lambda>e. hd (snd e)) (receivedValidPeerPublicKeySharePoints rm))
                     * prod_list (map snd (reconstructedIndividualPublicKeys rm)))
                  mod \<bar>dkg_P (protocolConfig rm)\<bar>)\<rparr>)"
  using assms
  by (simp add: CombineGroupPublicKey_def individualPublicKey_def
      receivedValidPeerIndividualPublicKeys_def receivedValidPeerIndividualPublicKeys_loop_eq
      CombineGroupPublicKey_loop_eq mod_mult_left_eq)

section \<open>Lagrange interpolation modulo \<open>Q\<close>\<close>

lemma Int_ModInverse_Some:
  assumes "0 < n" and "coprime g n"
  shows "\<exists>i. Int_ModInverse g n = Some i \<and> 0 \<le> i \<and> i < n \<and> i * (g mod n) mod n = 1 mod n
           \<and> i * g mod n = 1 mod n"
proof -
  let ?x = "nat (g mod n)" and ?y = "nat n"
  let ?a = "fst (bezw ?x ?y)" and ?b = "snd (bezw ?x ?y)"
  have gcd1: "gcd g n = 1"
    using assms(2) by (simp add: coprime_iff_gcd_eq_1)
  have x: "int ?x = g mod n" and y: "int ?y = n"
    using assms(1) by simp_all
  have "gcd (g mod n) n = 1"
    using gcd1 by (metis gcd.commute gcd_red_int)
  then have "gcd ?x ?y = 1"
    using x y by (metis gcd_int_int_eq int_ops(2) of_nat_eq_iff)
  with bezw_aux [of ?x ?y] have bez: "?a * (g mod n) + ?b * n = 1"
    using x y by simp
  have "(?a mod n) * (g mod n) mod n = (?a * (g mod n) + ?b * n) mod n"
    by (simp add: mod_mult_left_eq)
  with bez have inv: "(?a mod n) * (g mod n) mod n = 1 mod n"
    by simp
  then have inv': "(?a mod n) * g mod n = 1 mod n"
    by (simp add: mod_mult_right_eq)
  have val: "Int_ModInverse g n = Some (?a mod n)"
    using assms(1) gcd1 by (simp add: Int_ModInverse_def)
  have "0 \<le> ?a mod n" "?a mod n < n"
    using assms(1) by simp_all
  with val inv inv' show ?thesis by blast
qed

lemma Int_ModInverse_None: "\<not> coprime g n \<Longrightarrow> Int_ModInverse g n = None"
  by (simp add: Int_ModInverse_def coprime_iff_gcd_eq_1)

lemma inverseOfDifference_props:
  assumes "0 < q" and "coprime (int l - int k) q"
  shows "Int_ModInverse (int l - int k) q = Some (inverseOfDifference q k l)"
    and "0 \<le> inverseOfDifference q k l" and "inverseOfDifference q k l < q"
    and "inverseOfDifference q k l * ((int l - int k) mod q) mod q = 1 mod q"
    and "inverseOfDifference q k l * (int l - int k) mod q = 1 mod q"
  using Int_ModInverse_Some [OF assms] by (auto simp: inverseOfDifference_def)

lemma calculateLagrangeCoefficient_loop_eq:
  assumes "0 < q" and "\<forall>l\<in>set ids. l \<noteq> k \<longrightarrow> coprime (int l - int k) q"
  shows "calculateLagrangeCoefficient_loop q k ids lc =
     Some (if otherIDs k ids = [] then lc
           else (lc * prod_list (map (\<lambda>l. int l * inverseOfDifference q k l) (otherIDs k ids))) mod q)"
  using assms(2)
proof (induction ids arbitrary: lc)
  case Nil
  then show ?case by (simp add: otherIDs_def)
next
  case (Cons l ids)
  show ?case
  proof (cases "l = k")
    case True
    with Cons show ?thesis by (simp add: otherIDs_def)
  next
    case False
    with Cons.prems have "coprime (int l - int k) q" by simp
    note inv = inverseOfDifference_props(1) [OF assms(1) this]
    from Cons.prems have "\<forall>l\<in>set ids. l \<noteq> k \<longrightarrow> coprime (int l - int k) q" by simp
    note IH = Cons.IH [OF this]
    show ?thesis
      using False assms(1)
      by (simp add: inv IH Int_Mod_Some otherIDs_def mod_mult_left_eq mod_mult_right_eq mult.assoc)
  qed
qed

lemma prod_list_inverses:
  fixes c d i :: "'a \<Rightarrow> int"
  assumes "\<forall>l\<in>set ls. i l * d l mod q = 1 mod q"
  shows "(prod_list (map (\<lambda>l. c l * i l) ls) * prod_list (map d ls)) mod q = prod_list (map c ls) mod q"
  using assms
proof (induction ls)
  case Nil
  then show ?case by simp
next
  case (Cons l ls)
  let ?R = "prod_list (map (\<lambda>l. c l * i l) ls)" and ?D = "prod_list (map d ls)"
  have "(c l * i l * ?R) * (d l * ?D) = c l * ((i l * d l) * (?R * ?D))"
    by (simp add: algebra_simps)
  then have "((c l * i l * ?R) * (d l * ?D)) mod q = (c l * ((i l * d l) * (?R * ?D))) mod q"
    by (rule arg_cong [where f = "\<lambda>x. x mod q"])
  also have "\<dots> = (c l * (((i l * d l) * (?R * ?D)) mod q)) mod q"
    by (simp add: mod_mult_right_eq)
  also have "((i l * d l) * (?R * ?D)) mod q = ((i l * d l mod q) * ((?R * ?D) mod q)) mod q"
    by (simp add: mod_mult_eq)
  also have "\<dots> = ((1 mod q) * (prod_list (map c ls) mod q)) mod q"
    using Cons by simp
  also have "\<dots> = prod_list (map c ls) mod q"
    by (simp add: mod_mult_eq)
  also have "(c l * (prod_list (map c ls) mod q)) mod q = (c l * prod_list (map c ls)) mod q"
    by (simp add: mod_mult_right_eq)
  finally show ?case by simp
qed

lemma polynomial_sum_peval: "polynomial_sum j k as = int j ^ k * peval as (int j)"
  by (induction as arbitrary: k) (simp_all add: algebra_simps)

lemma peval_pdiv: "peval p x = peval p a + (x - a) * peval (pdiv a p) x"
proof (induction a p rule: pdiv.induct)
  case (1 a)
  then show ?case by simp
next
  case (2 a c)
  then show ?case by simp
next
  case (3 a c c' cs)
  define Tx Ta g where "Tx = peval (c' # cs) x" and "Ta = peval (c' # cs) a"
    and "g = peval (pdiv a (c' # cs)) x"
  from "3.IH" have IH: "Tx = Ta + (x - a) * g"
    by (simp only: Tx_def Ta_def g_def)
  have "peval (c # c' # cs) x = c + x * Tx"
    by (simp add: Tx_def)
  also have "\<dots> = (c + a * Ta) + (x - a) * (Ta + x * g)"
    by (simp add: IH algebra_simps)
  also have "\<dots> = peval (c # c' # cs) a + (x - a) * peval (pdiv a (c # c' # cs)) x"
    by (simp add: Ta_def g_def)
  finally show ?case .
qed

lemma length_pdiv: "length (pdiv a p) = length p - 1"
  by (induction a p rule: pdiv.induct) simp_all

lemma coefficients_from_pdiv:
  "q dvd peval p a \<Longrightarrow> \<forall>c\<in>set (pdiv a p). q dvd c \<Longrightarrow> \<forall>c\<in>set p. (q::int) dvd c"
proof (induction a p rule: pdiv.induct)
  case (1 a)
  then show ?case by simp
next
  case (2 a c)
  then show ?case by simp
next
  case (3 a c c' cs)
  from "3.prems"(2) have rest: "q dvd peval (c' # cs) a" and quot: "\<forall>c\<in>set (pdiv a (c' # cs)). q dvd c"
    by simp_all
  from "3.IH" [OF rest quot] have tail: "\<forall>c\<in>set (c' # cs). q dvd c" .
  have "c = peval (c # c' # cs) a - a * peval (c' # cs) a"
    by simp
  with "3.prems"(1) rest have "q dvd c"
    by (metis dvd_diff dvd_mult)
  with tail show ?case by simp
qed

lemma polynomial_root_bound:
  fixes q :: int
  assumes "length p \<le> length xs" and "coprimeDifferences q xs" and "\<forall>x\<in>set xs. q dvd peval p x"
  shows "\<forall>c\<in>set p. q dvd c"
  using assms
proof (induction xs arbitrary: p)
  case Nil
  then show ?case by simp
next
  case (Cons a xs)
  have "\<forall>x\<in>set xs. q dvd peval (pdiv a p) x"
  proof
    fix x
    assume x: "x \<in> set xs"
    with Cons.prems have "q dvd peval p x" "q dvd peval p a" "coprime (x - a) q"
      by simp_all
    moreover have "(x - a) * peval (pdiv a p) x = peval p x - peval p a"
      using peval_pdiv [of p x a] by simp
    ultimately have "q dvd (x - a) * peval (pdiv a p) x"
      by simp
    with \<open>coprime (x - a) q\<close> show "q dvd peval (pdiv a p) x"
      by (simp add: coprime_commute coprime_dvd_mult_right_iff)
  qed
  moreover have "length (pdiv a p) \<le> length xs"
    using Cons.prems(1) by (simp add: length_pdiv)
  moreover have "coprimeDifferences q xs"
    using Cons.prems(2) by simp
  ultimately have "\<forall>c\<in>set (pdiv a p). q dvd c"
    by (rule Cons.IH [rotated 2])
  moreover have "q dvd peval p a"
    using Cons.prems(3) by simp
  ultimately show ?case
    using coefficients_from_pdiv by blast
qed

lemma dvd_peval: "\<forall>c\<in>set p. (q::int) dvd c \<Longrightarrow> q dvd peval p x"
  by (induction p) simp_all

lemma peval_padd: "peval (padd p q) x = peval p x + peval q x"
  by (induction p q rule: padd.induct) (simp_all add: algebra_simps)

lemma length_padd: "length (padd p q) = max (length p) (length q)"
  by (induction p q rule: padd.induct) simp_all

lemma peval_pscale: "peval (pscale c p) x = c * peval p x"
  by (induction p) (simp_all add: pscale_def algebra_simps)

lemma length_pscale: "length (pscale c p) = length p"
  by (simp add: pscale_def)

lemma peval_plin: "peval (plin a p) x = (a - x) * peval p x"
  by (simp add: plin_def peval_padd peval_pscale algebra_simps)

lemma length_plin: "length (plin a p) = Suc (length p)"
  by (simp add: plin_def length_padd length_pscale)

lemma peval_pnum: "peval (pnum ls) x = prod_list (map (\<lambda>l. l - x) ls)"
  by (induction ls) (simp_all add: peval_plin)

lemma length_pnum: "length (pnum ls) = Suc (length ls)"
  by (induction ls) (simp_all add: length_plin)

lemma peval_psum: "peval (psum ps) x = sum_list (map (\<lambda>p. peval p x) ps)"
  by (induction ps) (simp_all add: peval_padd)

lemma length_psum: "\<forall>p\<in>set ps. length p \<le> n \<Longrightarrow> length (psum ps) \<le> n"
  by (induction ps) (simp_all add: length_padd)

lemma prod_list_map_mult:
  fixes f g :: "'a \<Rightarrow> int"
  shows "prod_list (map (\<lambda>l. f l * g l) ls) = prod_list (map f ls) * prod_list (map g ls)"
  by (induction ls) (simp_all add: algebra_simps)

lemma prod_list_ones: "prod_list (map (\<lambda>l. 1) ls) = (1::int)"
  by (induction ls) simp_all

lemma sum_list_single:
  fixes g :: "'k \<times> 'v \<Rightarrow> int"
  assumes "distinct (map fst es)" and "(j, v) \<in> set es"
  shows "sum_list (map (\<lambda>e. if fst e = j then g e else 0) es) = g (j, v)"
  using assms
proof (induction es)
  case Nil
  then show ?case by simp
next
  case (Cons e es)
  show ?case
  proof (cases "e = (j, v)")
    case True
    from Cons.prems(1) True have "j \<notin> fst ` set es"
      by simp
    then have "\<forall>e'\<in>set es. fst e' \<noteq> j"
      by (metis imageI)
    then have "sum_list (map (\<lambda>e. if fst e = j then g e else 0) es) = 0"
      by (induction es) simp_all
    with True show ?thesis by simp
  next
    case False
    with Cons.prems have in_es: "(j, v) \<in> set es" and "distinct (map fst es)"
      by simp_all
    then have IH: "sum_list (map (\<lambda>e. if fst e = j then g e else 0) es) = g (j, v)"
      using Cons.IH by simp
    from Cons.prems(1) have "fst e \<notin> fst ` set es"
      by simp
    with in_es have "fst e \<noteq> j"
      by (metis fst_conv imageI)
    with IH show ?thesis by simp
  qed
qed

lemma coprimeDifferences_keys:
  assumes "distinct keys"
    and "\<forall>k\<in>set keys. \<forall>l\<in>set keys. l \<noteq> k \<longrightarrow> coprime (int l - int k) q"
  shows "coprimeDifferences q (map int keys)"
  using assms
proof (induction keys)
  case Nil
  then show ?case by simp
next
  case (Cons k keys)
  have "\<forall>x\<in>set (map int keys). coprime (x - int k) q"
  proof
    fix x
    assume "x \<in> set (map int keys)"
    then obtain l where l: "l \<in> set keys" and x: "x = int l"
      by auto
    from l Cons.prems(1) have "l \<noteq> k" by auto
    with l Cons.prems(2) show "coprime (x - int k) q"
      by (simp add: x)
  qed
  moreover have "coprimeDifferences q (map int keys)"
    using Cons.prems by (intro Cons.IH) simp_all
  ultimately show ?case by simp
qed

lemma length_otherIDs: "k \<in> set keys \<Longrightarrow> Suc (length (otherIDs k keys)) \<le> length keys"
  using length_filter_less [of k keys "\<lambda>l. l \<noteq> k"] by (simp add: otherIDs_def)

lemma lagrange_at_zero:
  fixes es :: "(MemberID \<times> int) list"
  assumes q: "0 < q"
    and dist: "distinct (map fst es)"
    and cop: "\<forall>k\<in>set (map fst es). \<forall>l\<in>set (map fst es). l \<noteq> k \<longrightarrow> coprime (int l - int k) q"
    and len: "length as \<le> length es"
    and shares: "\<forall>e\<in>set es. snd e mod q = peval as (int (fst e)) mod q"
  shows "(\<Sum>e\<leftarrow>es. snd e * prod_list (map (\<lambda>l. int l * inverseOfDifference q (fst e) l)
            (otherIDs (fst e) (map fst es)))) mod q = peval as 0 mod q"
proof -
  define keys where "keys = map fst es"
  define c where "c k = prod_list (map (inverseOfDifference q k) (otherIDs k keys))" for k
  define W where "W k x = prod_list (map (\<lambda>l. int l - x) (otherIDs k keys))" for k x
  define N where "N k = pnum (map int (otherIDs k keys))" for k
  define H where "H = psum (map (\<lambda>e. pscale (snd e * c (fst e)) (N (fst e))) es)"
  define D where "D = padd H (pscale (- 1) as)"
  have key_in: "fst e \<in> set keys" if "e \<in> set es" for e
    using that by (simp add: keys_def)
  have lenN: "length (N k) \<le> length es" if "k \<in> set keys" for k
    using length_otherIDs [OF that] by (simp add: N_def length_pnum keys_def)
  have "\<forall>p\<in>set (map (\<lambda>e. pscale (snd e * c (fst e)) (N (fst e))) es). length p \<le> length es"
  proof
    fix p
    assume "p \<in> set (map (\<lambda>e. pscale (snd e * c (fst e)) (N (fst e))) es)"
    then obtain e where e: "e \<in> set es" and p: "p = pscale (snd e * c (fst e)) (N (fst e))"
      by auto
    from lenN [OF key_in [OF e]] p show "length p \<le> length es"
      by (simp add: length_pscale)
  qed
  then have "length H \<le> length es"
    unfolding H_def by (rule length_psum)
  with len have lenD: "length D \<le> length (map int keys)"
    by (simp add: D_def length_padd length_pscale keys_def)
  have evalN: "peval (N k) x = W k x" for k x
    by (simp add: N_def W_def peval_pnum comp_def)
  have evalH: "peval H x = (\<Sum>e\<leftarrow>es. snd e * c (fst e) * W (fst e) x)" for x
    by (simp add: H_def peval_psum peval_pscale evalN comp_def)
  have evalD: "peval D x = (\<Sum>e\<leftarrow>es. snd e * c (fst e) * W (fst e) x) - peval as x" for x
    by (simp add: D_def peval_padd peval_pscale evalH)
  have root: "q dvd peval D (int j)" if j: "j \<in> set keys" for j
  proof -
    from j obtain v where v: "(j, v) \<in> set es"
      by (auto simp: keys_def)
    have summand: "snd e * c (fst e) * W (fst e) (int j) =
        (if fst e = j then v * c j * W j (int j) else 0)" if e: "e \<in> set es" for e
    proof (cases "fst e = j")
      case True
      from e have "(fst e, snd e) \<in> set es" by simp
      with True have "(j, snd e) \<in> set es" by simp
      from eq_key_imp_eq_value [OF dist this v] True show ?thesis by simp
    next
      case False
      with j have "j \<in> set (otherIDs (fst e) keys)"
        by (simp add: otherIDs_def)
      then have "int j - int j \<in> (\<lambda>l. int l - int j) ` set (otherIDs (fst e) keys)"
        by (rule imageI)
      then have "(0::int) \<in> set (map (\<lambda>l. int l - int j) (otherIDs (fst e) keys))"
        by simp
      then have "W (fst e) (int j) = 0"
        unfolding W_def by (simp only: prod_list_zero_iff)
      with False show ?thesis by simp
    qed
    have "map (\<lambda>e. snd e * c (fst e) * W (fst e) (int j)) es =
        map (\<lambda>e. if fst e = j then v * c j * W j (int j) else 0) es"
      by (rule map_cong) (simp_all only: summand)
    then have "(\<Sum>e\<leftarrow>es. snd e * c (fst e) * W (fst e) (int j)) =
        (\<Sum>e\<leftarrow>es. if fst e = j then v * c j * W j (int j) else 0)"
      by (rule arg_cong)
    also have "\<dots> = v * c j * W j (int j)"
      using sum_list_single [OF dist v, of "\<lambda>e. v * c j * W j (int j)"] .
    finally have sum: "peval D (int j) = v * (c j * W j (int j)) - peval as (int j)"
      by (simp only: evalD mult.assoc)
    have "\<forall>l\<in>set (otherIDs j keys). inverseOfDifference q j l * (int l - int j) mod q = 1 mod q"
    proof
      fix l
      assume "l \<in> set (otherIDs j keys)"
      then have "l \<in> set (map fst es)" "l \<noteq> j"
        by (simp_all add: otherIDs_def keys_def)
      with cop j [unfolded keys_def] have "coprime (int l - int j) q"
        by blast
      then show "inverseOfDifference q j l * (int l - int j) mod q = 1 mod q"
        by (rule inverseOfDifference_props(5) [OF q])
    qed
    from prod_list_inverses [OF this, of "\<lambda>l. 1"]
    have one: "(c j * W j (int j)) mod q = 1 mod q"
      by (simp add: c_def W_def prod_list_ones)
    from shares v have sv: "v mod q = peval as (int j) mod q"
      by fastforce
    have "(v * (c j * W j (int j))) mod q = (v mod q * ((c j * W j (int j)) mod q)) mod q"
      by (simp only: mod_mult_eq)
    also have "\<dots> = (v mod q * (1 mod q)) mod q"
      by (simp only: one)
    also have "\<dots> = peval as (int j) mod q"
      by (simp add: mod_simps sv)
    finally have same: "(v * (c j * W j (int j))) mod q = peval as (int j) mod q" .
    have "peval D (int j) mod q =
        ((v * (c j * W j (int j))) mod q - peval as (int j) mod q) mod q"
      unfolding sum by (simp only: mod_diff_eq)
    then have "peval D (int j) mod q = 0"
      by (simp only: same) simp
    then show ?thesis by (simp only: dvd_eq_mod_eq_0)
  qed
  have "coprimeDifferences q (map int keys)"
    using dist cop by (intro coprimeDifferences_keys) (simp_all add: keys_def)
  with lenD have "\<forall>c\<in>set D. q dvd c"
    by (rule polynomial_root_bound) (use root in simp)
  then have "q dvd peval D 0"
    by (rule dvd_peval)
  moreover have "c k * W k 0 = prod_list (map (\<lambda>l. int l * inverseOfDifference q k l) (otherIDs k keys))" for k
    by (simp add: c_def W_def prod_list_map_mult [of int] mult.commute)
  then have "(\<Sum>e\<leftarrow>es. snd e * c (fst e) * W (fst e) 0) =
      (\<Sum>e\<leftarrow>es. snd e * prod_list (map (\<lambda>l. int l * inverseOfDifference q (fst e) l)
            (otherIDs (fst e) keys)))"
    by (simp only: mult.assoc)
  ultimately have "q dvd (\<Sum>e\<leftarrow>es. snd e * prod_list (map (\<lambda>l. int l * inverseOfDifference q (fst e) l)
            (otherIDs (fst e) keys))) - peval as 0"
    by (simp only: evalD)
  then show ?thesis
    unfolding keys_def by (simp only: mod_eq_dvd_iff)
qed

lemma primeModulus_coprime:
  assumes "primeModulus q" and "\<not> q dvd x"
  shows "coprime x q"
proof -
  let ?g = "gcd x q"
  from assms(1) have q: "1 < q" and prime: "\<forall>d\<in>{2..<q}. \<not> d dvd q"
    by (simp_all add: primeModulus_def)
  have "?g dvd q" "?g dvd x" by simp_all
  with assms(2) have "?g \<noteq> q" by metis
  moreover have "0 < ?g" using q by simp
  moreover have "?g \<le> q" using \<open>?g dvd q\<close> q by (simp add: zdvd_imp_le)
  ultimately have "?g = 1 \<or> (2 \<le> ?g \<and> ?g < q)" by linarith
  then have "?g = 1 \<or> ?g \<in> {2..<q}" by (simp only: atLeastLessThan_iff)
  with prime \<open>?g dvd q\<close> have "?g = 1" by blast
  then show ?thesis by (simp add: coprime_iff_gcd_eq_1)
qed

lemma distinctModulo_coprime:
  assumes "primeModulus q" and "distinctModulo q keys"
  shows "distinct keys"
    and "\<forall>k\<in>set keys. \<forall>l\<in>set keys. l \<noteq> k \<longrightarrow> coprime (int l - int k) q"
proof -
  from assms(2) have d: "distinct (map (\<lambda>k. int k mod q) keys)"
    by (simp add: distinctModulo_def)
  then show "distinct keys"
    by (simp add: distinct_map)
  from d have inj: "inj_on (\<lambda>k. int k mod q) (set keys)"
    by (simp add: distinct_map)
  show "\<forall>k\<in>set keys. \<forall>l\<in>set keys. l \<noteq> k \<longrightarrow> coprime (int l - int k) q"
  proof (intro ballI impI)
    fix k l
    assume "k \<in> set keys" "l \<in> set keys" "l \<noteq> k"
    with inj have "int l mod q \<noteq> int k mod q"
      by (metis inj_onD)
    then have "\<not> q dvd int l - int k"
      by (simp add: mod_eq_dvd_iff)
    with assms(1) show "coprime (int l - int k) q"
      by (rule primeModulus_coprime)
  qed
qed

lemma calculateLagrangeCoefficient_eq:
  assumes "1 < dkg_Q cfg" and "\<forall>l\<in>set peerIDs. l \<noteq> k \<longrightarrow> coprime (int l - int k) (dkg_Q cfg)"
  shows "calculateLagrangeCoefficient cfg k peerIDs =
     Some (prod_list (map (\<lambda>l. int l * inverseOfDifference (dkg_Q cfg) k l) (otherIDs k peerIDs))
           mod dkg_Q cfg)"
proof -
  have q: "0 < dkg_Q cfg" and one: "1 mod dkg_Q cfg = 1"
    using assms(1) by simp_all
  show ?thesis
    using one by (simp add: calculateLagrangeCoefficient_def
        calculateLagrangeCoefficient_loop_eq [OF q assms(2)])
qed

lemma individualPrivateKey_loop_eq:
  assumes "1 < dkg_Q cfg"
    and "\<forall>k\<in>set (map fst es). \<forall>l\<in>set peerIDs. l \<noteq> k \<longrightarrow> coprime (int l - int k) (dkg_Q cfg)"
  shows "individualPrivateKey_loop cfg peerIDs es acc =
     Some (if es = [] then acc
           else (acc + (\<Sum>e\<leftarrow>es. snd e *
                   prod_list (map (\<lambda>l. int l * inverseOfDifference (dkg_Q cfg) (fst e) l)
                     (otherIDs (fst e) peerIDs)))) mod dkg_Q cfg)"
  using assms(2)
proof (induction es arbitrary: acc)
  case Nil
  then show ?case by simp
next
  case (Cons e es)
  obtain k s where e: "e = (k, s)" by (cases e)
  from Cons.prems e have "\<forall>l\<in>set peerIDs. l \<noteq> k \<longrightarrow> coprime (int l - int k) (dkg_Q cfg)"
    by simp
  note coefficient = calculateLagrangeCoefficient_eq [OF assms(1) this]
  from Cons.prems have
    "\<forall>k\<in>set (map fst es). \<forall>l\<in>set peerIDs. l \<noteq> k \<longrightarrow> coprime (int l - int k) (dkg_Q cfg)"
    by simp
  note IH = Cons.IH [OF this]
  have q: "dkg_Q cfg \<noteq> 0"
    using assms(1) by simp
  have abs: "\<bar>dkg_Q cfg\<bar> = dkg_Q cfg"
    using assms(1) by simp
  define X where "X = prod_list (map (\<lambda>l. int l * inverseOfDifference (dkg_Q cfg) k l) (otherIDs k peerIDs))"
  define S where "S = (\<Sum>e\<leftarrow>es. snd e *
      prod_list (map (\<lambda>l. int l * inverseOfDifference (dkg_Q cfg) (fst e) l) (otherIDs (fst e) peerIDs)))"
  have step: "(a + s * (X mod dkg_Q cfg)) mod dkg_Q cfg = (a + s * X) mod dkg_Q cfg" for a
    by (metis mod_add_eq mod_mult_right_eq)
  have run: "individualPrivateKey_loop cfg peerIDs (e # es) acc =
      individualPrivateKey_loop cfg peerIDs es ((acc + s * (X mod dkg_Q cfg)) mod dkg_Q cfg)"
    by (simp add: e coefficient Int_Mod_Some [OF q] abs X_def)
  have rhs: "(if e # es = [] then acc
           else (acc + (\<Sum>e\<leftarrow>e # es. snd e *
                   prod_list (map (\<lambda>l. int l * inverseOfDifference (dkg_Q cfg) (fst e) l)
                     (otherIDs (fst e) peerIDs)))) mod dkg_Q cfg) =
      (acc + (s * X + S)) mod dkg_Q cfg"
    by (simp add: e X_def S_def)
  have "individualPrivateKey_loop cfg peerIDs (e # es) acc = Some ((acc + (s * X + S)) mod dkg_Q cfg)"
  proof (cases "es = []")
    case True
    then have "S = 0"
      by (simp add: S_def)
    have "individualPrivateKey_loop cfg peerIDs (e # es) acc =
        Some ((acc + s * (X mod dkg_Q cfg)) mod dkg_Q cfg)"
      by (subst run) (simp add: True)
    also have "\<dots> = Some ((acc + s * X) mod dkg_Q cfg)"
      by (simp only: step)
    finally show ?thesis
      by (simp only: \<open>S = 0\<close> add_0_right)
  next
    case False
    have "((acc + s * (X mod dkg_Q cfg)) mod dkg_Q cfg + S) mod dkg_Q cfg =
        ((acc + s * (X mod dkg_Q cfg)) + S) mod dkg_Q cfg"
      by (simp only: mod_add_left_eq)
    also have "\<dots> = ((acc + S) + s * (X mod dkg_Q cfg)) mod dkg_Q cfg"
      by (simp only: add.assoc add.commute [of S])
    also have "\<dots> = ((acc + S) + s * X) mod dkg_Q cfg"
      by (rule step)
    also have "\<dots> = (acc + (s * X + S)) mod dkg_Q cfg"
      by (simp only: add.assoc add.commute [of S])
    finally have eq: "((acc + s * (X mod dkg_Q cfg)) mod dkg_Q cfg + S) mod dkg_Q cfg =
        (acc + (s * X + S)) mod dkg_Q cfg" .
    have "individualPrivateKey_loop cfg peerIDs (e # es) acc =
        Some (((acc + s * (X mod dkg_Q cfg)) mod dkg_Q cfg + S) mod dkg_Q cfg)"
      by (subst run, subst IH) (simp add: False S_def)
    then show ?thesis
      by (simp only: eq)
  qed
  then show ?case
    by (simp only: rhs)
qed

lemma otherIDs_permutation:
  fixes f :: "MemberID \<Rightarrow> int"
  assumes "mset peerIDs = mset keys"
  shows "prod_list (map f (otherIDs k peerIDs)) = prod_list (map f (otherIDs k keys))"
proof -
  from assms have "mset (otherIDs k peerIDs) = mset (otherIDs k keys)"
    by (simp add: otherIDs_def)
  then show ?thesis
    by (rule prod_list_permutation)
qed

lemma reconstruction_of_honest_shares:
  assumes prime: "primeModulus (dkg_Q cfg)"
    and ok: "reconstructible (dkg_Q cfg) keysOrder d"
    and len: "length coefficients \<le> length (peerSharesS d)" and nonempty: "coefficients \<noteq> []"
    and shares: "\<forall>e\<in>set (peerSharesS d). evaluateMemberShare cfg (fst e) coefficients = Some (snd e)"
  shows "individualPrivateKey_loop cfg (keysOrder d) (peerSharesS d) 0 =
     Some (hd coefficients mod dkg_Q cfg)"
proof -
  let ?q = "dkg_Q cfg" and ?es = "peerSharesS d"
  from prime have q1: "1 < ?q" and q0: "0 < ?q"
    by (simp_all add: primeModulus_def)
  from ok have dm: "distinctModulo ?q (map fst ?es)" and perm: "mset (keysOrder d) = mset (map fst ?es)"
    by (simp_all add: reconstructible_def)
  note dist = distinctModulo_coprime(1) [OF prime dm]
  note cop = distinctModulo_coprime(2) [OF prime dm]
  from perm have sets: "set (keysOrder d) = set (map fst ?es)"
    by (rule mset_eq_setD)
  have cop': "\<forall>k\<in>set (map fst ?es). \<forall>l\<in>set (keysOrder d). l \<noteq> k \<longrightarrow> coprime (int l - int k) ?q"
    using cop unfolding sets .
  from len nonempty have es: "?es \<noteq> []"
    by auto
  have sv: "\<forall>e\<in>set ?es. snd e mod ?q = peval coefficients (int (fst e)) mod ?q"
  proof
    fix e
    assume "e \<in> set ?es"
    with shares have "evaluateMemberShare cfg (fst e) coefficients = Some (snd e)"
      by simp
    then have "snd e = peval coefficients (int (fst e)) mod ?q"
      using q0 by (simp add: evaluateMemberShare_eq polynomial_sum_peval)
    then show "snd e mod ?q = peval coefficients (int (fst e)) mod ?q"
      by simp
  qed
  have "individualPrivateKey_loop cfg (keysOrder d) ?es 0 =
      Some ((\<Sum>e\<leftarrow>?es. snd e *
          prod_list (map (\<lambda>l. int l * inverseOfDifference ?q (fst e) l)
            (otherIDs (fst e) (keysOrder d)))) mod ?q)"
    using es by (simp add: individualPrivateKey_loop_eq [OF q1 cop'])
  also have "(\<Sum>e\<leftarrow>?es. snd e *
          prod_list (map (\<lambda>l. int l * inverseOfDifference ?q (fst e) l)
            (otherIDs (fst e) (keysOrder d)))) =
      (\<Sum>e\<leftarrow>?es. snd e *
          prod_list (map (\<lambda>l. int l * inverseOfDifference ?q (fst e) l)
            (otherIDs (fst e) (map fst ?es))))"
    by (simp only: otherIDs_permutation [OF perm])
  also have "\<dots> mod ?q = peval coefficients 0 mod ?q"
    using q0 dist cop len sv by (rule lagrange_at_zero)
  also have "peval coefficients 0 = hd coefficients"
    using nonempty by (cases coefficients) simp_all
  finally show ?thesis .
qed

lemma reconstructible_defined:
  assumes "primeModulus (dkg_Q cfg)" and "reconstructible (dkg_Q cfg) keysOrder d"
  shows "individualPrivateKey_loop cfg (keysOrder d) (peerSharesS d) 0 \<noteq> None"
proof -
  from assms(1) have q1: "1 < dkg_Q cfg"
    by (simp add: primeModulus_def)
  from assms(2) have dm: "distinctModulo (dkg_Q cfg) (map fst (peerSharesS d))"
    and perm: "mset (keysOrder d) = mset (map fst (peerSharesS d))"
    by (simp_all add: reconstructible_def)
  from perm have sets: "set (keysOrder d) = set (map fst (peerSharesS d))"
    by (rule mset_eq_setD)
  have "\<forall>k\<in>set (map fst (peerSharesS d)). \<forall>l\<in>set (keysOrder d).
      l \<noteq> k \<longrightarrow> coprime (int l - int k) (dkg_Q cfg)"
    using distinctModulo_coprime(2) [OF assms(1) dm] unfolding sets .
  from individualPrivateKey_loop_eq [OF q1 this] show ?thesis
    by simp
qed

lemma ReconstructIndividualPrivateKeys_loop_result:
  assumes "\<forall>d\<in>set dss. individualPrivateKey_loop cfg (keysOrder d) (peerSharesS d) 0 \<noteq> None"
    and "distinct (map disqualifiedMemberID dss)"
  shows "\<exists>keys'. ReconstructIndividualPrivateKeys_loop cfg keysOrder dss keys = Some keys'
     \<and> (\<forall>d\<in>set dss. map_of keys' (disqualifiedMemberID d) =
           individualPrivateKey_loop cfg (keysOrder d) (peerSharesS d) 0)
     \<and> (\<forall>m. m \<notin> disqualifiedMemberID ` set dss \<longrightarrow> map_of keys' m = map_of keys m)"
  using assms
proof (induction dss arbitrary: keys)
  case Nil
  then show ?case by simp
next
  case (Cons d dss)
  from Cons.prems(1) obtain z where
    z: "individualPrivateKey_loop cfg (keysOrder d) (peerSharesS d) 0 = Some z"
    by auto
  let ?keys1 = "AList.update (disqualifiedMemberID d) z keys"
  from Cons.prems have "\<forall>d\<in>set dss. individualPrivateKey_loop cfg (keysOrder d) (peerSharesS d) 0 \<noteq> None"
    and "distinct (map disqualifiedMemberID dss)"
    by simp_all
  from Cons.IH [OF this, of ?keys1] obtain keys' where
    run: "ReconstructIndividualPrivateKeys_loop cfg keysOrder dss ?keys1 = Some keys'"
    and each: "\<forall>d\<in>set dss. map_of keys' (disqualifiedMemberID d) =
           individualPrivateKey_loop cfg (keysOrder d) (peerSharesS d) 0"
    and frame: "\<forall>m. m \<notin> disqualifiedMemberID ` set dss \<longrightarrow> map_of keys' m = map_of ?keys1 m"
    by blast
  from Cons.prems(2) have notin: "disqualifiedMemberID d \<notin> disqualifiedMemberID ` set dss"
    by simp
  have 1: "ReconstructIndividualPrivateKeys_loop cfg keysOrder (d # dss) keys = Some keys'"
    by (simp add: z run)
  have 2: "\<forall>x\<in>set (d # dss). map_of keys' (disqualifiedMemberID x) =
           individualPrivateKey_loop cfg (keysOrder x) (peerSharesS x) 0"
    using each frame notin z by (simp add: update_conv')
  have 3: "\<forall>m. m \<notin> disqualifiedMemberID ` set (d # dss) \<longrightarrow> map_of keys' m = map_of keys m"
    using frame by (simp add: update_conv')
  from 1 2 3 show ?case by blast
qed

section \<open>What the earlier phases establish\<close>

text \<open>
  What C6, C8 and C10 ask of the member's own values and of its key pairs holds in every
  state that the phases before them produce: \<open>evaluateMemberShare\<close> returns the own share
  reduced modulo \<open>Q\<close>, \<open>CalculatePublicKeySharePoints\<close> computes points reduced modulo \<open>P\<close>,
  and Phase 2 and Phase 4 keep a key pair for every peer with a symmetric key or a share.
  That the points recorded for a peer are not empty is not among them: Phase 8 records an
  empty list when it passes the check.
\<close>

lemma evaluateMemberShare_range:
  assumes "0 < dkg_Q cfg" and "evaluateMemberShare cfg j as = Some s"
  shows "0 \<le> s \<and> s < dkg_Q cfg"
  using assms by (auto simp: evaluateMemberShare_eq)

lemma CalculatePublicKeySharePoints_range:
  assumes "0 < dkg_P (protocolConfig sm)"
  shows "\<forall>a\<in>set (publicKeySharePoints (fst (CalculatePublicKeySharePoints sm))).
           0 \<le> a \<and> a < dkg_P (protocolConfig sm)"
  using assms by (simp add: CalculatePublicKeySharePoints_def Let_def Int_Exp_def)

lemma GenerateSymmetricKeys_body_keeps:
  assumes "keyPairsCoverShares sm" and "GenerateSymmetricKeys_body sm msg = (sm', r)"
  shows "keyPairsCoverShares sm'"
proof (cases "ephemeralKeyPairs sm (senderID msg)")
  case None
  with assms(2) have "sm' = sm\<lparr>evidenceLog := PutEphemeralMessage (evidenceLog sm) msg\<rparr>"
    by (simp add: GenerateSymmetricKeys_body_def)
  with assms(1) show ?thesis
    by (simp add: keyPairsCoverShares_def)
next
  case (Some keyPair)
  show ?thesis
  proof (cases "ephemeralPublicKeys msg (ID sm)")
    case None
    with Some assms(2) have "sm' = sm\<lparr>evidenceLog := PutEphemeralMessage (evidenceLog sm) msg\<rparr>"
      by (simp add: GenerateSymmetricKeys_body_def)
    with assms(1) show ?thesis
      by (simp add: keyPairsCoverShares_def)
  next
    case (Some publicKey)
    with \<open>ephemeralKeyPairs sm (senderID msg) = Some keyPair\<close> assms(2)
    have "sm' = sm\<lparr>evidenceLog := PutEphemeralMessage (evidenceLog sm) msg,
        symmetricKeys := (symmetricKeys sm)(senderID msg \<mapsto> Ecdh (PrivateKey keyPair) publicKey)\<rparr>"
      by (simp add: GenerateSymmetricKeys_body_def)
    with assms(1) \<open>ephemeralKeyPairs sm (senderID msg) = Some keyPair\<close> show ?thesis
      by (simp add: keyPairsCoverShares_def)
  qed
qed

lemma GenerateSymmetricKeys_keeps:
  assumes "keyPairsCoverShares sm" and "GenerateSymmetricKeys sm msgs = (sm', r)"
  shows "keyPairsCoverShares sm'"
  using assms
proof (induction msgs arbitrary: sm)
  case Nil
  then show ?case by simp
next
  case (Cons msg msgs)
  obtain sm1 r1 where body: "GenerateSymmetricKeys_body sm msg = (sm1, r1)"
    by (cases "GenerateSymmetricKeys_body sm msg")
  from GenerateSymmetricKeys_body_keeps [OF Cons.prems(1) body] have inv: "keyPairsCoverShares sm1" .
  show ?case
  proof (cases r1)
    case None
    with Cons.prems(2) body have "GenerateSymmetricKeys sm1 msgs = (sm', r)" by simp
    from Cons.IH [OF inv this] show ?thesis .
  next
    case (Some err)
    with Cons.prems(2) body have "sm' = sm1" by simp
    with inv show ?thesis by simp
  qed
qed

lemma VerifyReceived_body_keeps:
  assumes "keyPairsCoverShares cvm"
    and "VerifyReceivedSharesAndCommitmentsMessages_body cvm sharesMessages c accused = Inr (cvm', accused')"
  shows "keyPairsCoverShares cvm'"
proof (cases "find (\<lambda>sharesMessage. senderID sharesMessage = senderID c) sharesMessages")
  case None
  with assms(2) show ?thesis
    by (simp add: VerifyReceivedSharesAndCommitmentsMessages_body_def)
next
  case found: (Some sharesMessage)
  then have sender: "senderID sharesMessage = senderID c"
    by (auto simp: find_Some_iff)
  show ?thesis
  proof (cases "symmetricKeys cvm (senderID sharesMessage)")
    case None
    with found assms(2) show ?thesis
      by (simp add: VerifyReceivedSharesAndCommitmentsMessages_body_def)
  next
    case key: (Some symmetricKey)
    show ?thesis
    proof (cases "decryptShareS sharesMessage (ID cvm) symmetricKey")
      case (Inl err)
      with found key assms(2) show ?thesis
        by (simp add: VerifyReceivedSharesAndCommitmentsMessages_body_def)
    next
      case S: (Inr shareS)
      show ?thesis
      proof (cases "decryptShareT sharesMessage (ID cvm) symmetricKey")
        case (Inl err)
        with found key S assms(2) show ?thesis
          by (simp add: VerifyReceivedSharesAndCommitmentsMessages_body_def)
      next
        case T: (Inr shareT)
        show ?thesis
        proof (cases "areSharesValidAgainstCommitments (protocolConfig cvm) (vss cvm)
            shareS shareT (commitments c) (ID cvm)")
          case None
          with found key S T assms(2) show ?thesis
            by (simp add: VerifyReceivedSharesAndCommitmentsMessages_body_def)
        next
          case valid: (Some b)
          show ?thesis
          proof (cases b)
            case True
            with found key S T valid assms(2) have
              "cvm' = cvm\<lparr>receivedValidSharesS := AList.update (senderID c) shareS (receivedValidSharesS cvm),
                    receivedValidSharesT := AList.update (senderID c) shareT (receivedValidSharesT cvm),
                    receivedValidPeerCommitments :=
                      (receivedValidPeerCommitments cvm)(senderID c \<mapsto> commitments c)\<rparr>"
              by (simp add: VerifyReceivedSharesAndCommitmentsMessages_body_def)
            with assms(1) key sender show ?thesis
              by (simp add: keyPairsCoverShares_def update_conv')
          next
            case False
            with found key S T valid assms(2) have "cvm' = cvm"
              by (cases "ephemeralKeyPairs cvm (senderID c)")
                (simp_all add: VerifyReceivedSharesAndCommitmentsMessages_body_def)
            with assms(1) show ?thesis by simp
          qed
        qed
      qed
    qed
  qed
qed

lemma VerifyReceived_loop_keeps:
  assumes "keyPairsCoverShares cvm"
    and "VerifyReceivedSharesAndCommitmentsMessages_loop cvm sharesMessages cs accused = Inr (cvm', accused')"
  shows "keyPairsCoverShares cvm'"
  using assms
proof (induction cs arbitrary: cvm accused)
  case Nil
  then show ?case by simp
next
  case (Cons c cs)
  from Cons.prems(2) obtain cvm1 accused1 where
    body: "VerifyReceivedSharesAndCommitmentsMessages_body cvm sharesMessages c accused = Inr (cvm1, accused1)"
    and rest: "VerifyReceivedSharesAndCommitmentsMessages_loop cvm1 sharesMessages cs accused1 = Inr (cvm', accused')"
    by (auto split: sum.splits)
  from VerifyReceived_body_keeps [OF Cons.prems(1) body] have "keyPairsCoverShares cvm1" .
  from Cons.IH [OF this rest] show ?case .
qed

lemma VerifyReceivedSharesAndCommitmentsMessages_keeps:
  assumes "keyPairsCoverShares cvm"
    and "VerifyReceivedSharesAndCommitmentsMessages cvm sharesMessages cs = Inr (cvm', message)"
  shows "keyPairsCoverShares cvm'"
proof -
  from assms(2) obtain accused where
    "VerifyReceivedSharesAndCommitmentsMessages_loop cvm sharesMessages cs [] = Inr (cvm', accused)"
    by (auto simp: VerifyReceivedSharesAndCommitmentsMessages_def split: sum.splits)
  with assms(1) show ?thesis
    by (rule VerifyReceived_loop_keeps)
qed

lemma keyPairsCoverShares_key_pair:
  "keyPairsCoverShares m \<Longrightarrow> map_of (receivedValidSharesS m) k \<noteq> None \<Longrightarrow> ephemeralKeyPairs m k \<noteq> None"
  by (simp add: keyPairsCoverShares_def)

section \<open>The two combining phases for every order of the maps\<close>

text \<open>
  Either loop of \<open>CombineMemberShares\<close> and of \<open>CombineGroupPublicKey\<close> in closed form,
  the panics included, and with it the outcome on a permuted list.
\<close>

lemma CombineMemberShares_loop_result:
  "CombineMemberShares_loop q combined ss =
     (if ss = [] then Inr combined
      else case combined of
             None \<Rightarrow> Inl Panic
           | Some c \<Rightarrow> if q = 0 then Inl Panic else Inr (Some ((c + sum_list ss) mod \<bar>q\<bar>)))"
proof (cases combined)
  case None
  then show ?thesis by (cases ss) simp_all
next
  case (Some c)
  show ?thesis
  proof (cases "q = 0")
    case True
    with Some show ?thesis by (cases ss) (simp_all add: Int_Mod_def)
  next
    case False
    with Some show ?thesis by (simp add: CombineMemberShares_loop_eq)
  qed
qed

lemma CombineGroupPublicKey_loop_result:
  "CombineGroupPublicKey_loop p g ks =
     (if ks = [] then Some g
      else if p = 0 then None else Some ((g * prod_list ks) mod \<bar>p\<bar>))"
proof (cases "p = 0")
  case True
  then show ?thesis by (cases ks) (simp_all add: Int_Mod_def)
next
  case False
  then show ?thesis by (simp add: CombineGroupPublicKey_loop_eq)
qed

lemma CombineMemberShares_loop_permutation:
  assumes "mset ss' = mset ss"
  shows "CombineMemberShares_loop q combined ss' = CombineMemberShares_loop q combined ss"
proof -
  from assms have "ss' = [] \<longleftrightarrow> ss = []"
    by (metis mset_zero_iff)
  moreover from assms have "sum_list ss' = sum_list ss"
    by (metis sum_mset_sum_list)
  ultimately show ?thesis
    by (simp add: CombineMemberShares_loop_result split: option.split)
qed

lemma CombineMemberShares_permutation:
  assumes "mset sharesS' = mset (receivedValidSharesS m)"
    and "mset sharesT' = mset (receivedValidSharesT m)"
  shows "map_sum id masterPrivateKeyShare
           (CombineMemberShares (m\<lparr>receivedValidSharesS := sharesS', receivedValidSharesT := sharesT'\<rparr>)) =
         map_sum id masterPrivateKeyShare (CombineMemberShares m)"
proof -
  from assms(1) have "mset (map snd sharesS') = mset (map snd (receivedValidSharesS m))" by simp
  then have S: "CombineMemberShares_loop q c (map snd sharesS') =
      CombineMemberShares_loop q c (map snd (receivedValidSharesS m))" for q c
    by (rule CombineMemberShares_loop_permutation)
  from assms(2) have "mset (map snd sharesT') = mset (map snd (receivedValidSharesT m))" by simp
  then have T: "CombineMemberShares_loop q c (map snd sharesT') =
      CombineMemberShares_loop q c (map snd (receivedValidSharesT m))" for q c
    by (rule CombineMemberShares_loop_permutation)
  show ?thesis
    by (simp add: CombineMemberShares_def S T split: sum.split)
qed

lemma CombineGroupPublicKey_result:
  "CombineGroupPublicKey rm =
     (if publicKeySharePoints rm = []
         \<or> (\<exists>e\<in>set (receivedValidPeerPublicKeySharePoints rm). snd e = [])
         \<or> (dkg_P (protocolConfig rm) = 0
              \<and> (receivedValidPeerPublicKeySharePoints rm \<noteq> [] \<or> reconstructedIndividualPublicKeys rm \<noteq> []))
      then Inl Panic
      else Inr (rm\<lparr>groupPublicKey :=
        Some (if receivedValidPeerPublicKeySharePoints rm = [] \<and> reconstructedIndividualPublicKeys rm = []
              then hd (publicKeySharePoints rm)
              else (hd (publicKeySharePoints rm)
                      * prod_list (map (\<lambda>e. hd (snd e)) (receivedValidPeerPublicKeySharePoints rm))
                      * prod_list (map snd (reconstructedIndividualPublicKeys rm)))
                   mod \<bar>dkg_P (protocolConfig rm)\<bar>)\<rparr>))"
  by (cases "publicKeySharePoints rm")
    (auto simp: CombineGroupPublicKey_def individualPublicKey_def
      receivedValidPeerIndividualPublicKeys_def receivedValidPeerIndividualPublicKeys_loop_eq
      CombineGroupPublicKey_loop_result mod_mult_left_eq)

lemma CombineGroupPublicKey_permutation:
  assumes "mset peerPoints' = mset (receivedValidPeerPublicKeySharePoints m)"
    and "mset reconstructed' = mset (reconstructedIndividualPublicKeys m)"
  shows "map_sum id groupPublicKey
           (CombineGroupPublicKey (m\<lparr>receivedValidPeerPublicKeySharePoints := peerPoints',
                                      reconstructedIndividualPublicKeys := reconstructed'\<rparr>)) =
         map_sum id groupPublicKey (CombineGroupPublicKey m)"
proof -
  have empty2: "peerPoints' = [] \<longleftrightarrow> receivedValidPeerPublicKeySharePoints m = []"
    using assms(1) by (metis mset_zero_iff)
  have empty3: "reconstructed' = [] \<longleftrightarrow> reconstructedIndividualPublicKeys m = []"
    using assms(2) by (metis mset_zero_iff)
  have set2: "set peerPoints' = set (receivedValidPeerPublicKeySharePoints m)"
    using assms(1) by (metis set_mset_mset)
  have prod2: "prod_list (map (\<lambda>e. hd (snd e)) peerPoints') =
      prod_list (map (\<lambda>e. hd (snd e)) (receivedValidPeerPublicKeySharePoints m))"
    using assms(1) by (rule prod_list_permutation)
  have prod3: "prod_list (map snd reconstructed') =
      prod_list (map snd (reconstructedIndividualPublicKeys m))"
    using assms(2) by (rule prod_list_permutation)
  show ?thesis
    by (simp add: CombineGroupPublicKey_result empty2 empty3 set2 prod2 prod3)
qed

section \<open>The two maps that Phase 8 fills\<close>

text \<open>
  The loop of \<open>VerifyPublicKeySharePoints\<close> on any list of messages, two messages of one
  sender included: a sender is accused when the check fails on one of its messages, and
  the points recorded for it are those of its last message that passed.
\<close>

lemma find_append_cases:
  "find P (xs @ ys) = (case find P xs of None \<Rightarrow> find P ys | Some x \<Rightarrow> Some x)"
  by (induction xs) simp_all

lemma VerifyPublicKeySharePoints_loop_maps:
  assumes "\<forall>m\<in>set msgs. pointsValid sm m \<noteq> None \<and> ephemeralKeyPairs sm (senderID m) \<noteq> None"
  shows "\<exists>sm' acc'. VerifyPublicKeySharePoints_loop sm msgs acc = Inr (sm', acc')
     \<and> (\<forall>k. map_of acc' k =
           (if \<exists>m\<in>set msgs. senderID m = k \<and> pointsValid sm m = Some False
            then map_option PrivateKey (ephemeralKeyPairs sm k) else map_of acc k))
     \<and> (\<forall>k. map_of (receivedValidPeerPublicKeySharePoints sm') k =
           (case find (\<lambda>m. senderID m = k \<and> pointsValid sm m = Some True) (rev msgs) of
              None \<Rightarrow> map_of (receivedValidPeerPublicKeySharePoints sm) k
            | Some m \<Rightarrow> Some (message_publicKeySharePoints m)))"
  using assms
proof (induction msgs arbitrary: sm acc)
  case Nil
  then show ?case by simp
next
  case (Cons m msgs)
  from Cons.prems obtain valid keyPair where
    valid: "pointsValid sm m = Some valid" and kp: "ephemeralKeyPairs sm (senderID m) = Some keyPair"
    by auto
  from VerifyPublicKeySharePoints_body_step [OF valid kp, of acc] obtain sm1 acc1 where
    body: "VerifyPublicKeySharePoints_body sm m acc = Inr (sm1, acc1)"
    and same: "sameInputs sm sm1"
    and step: "if valid
         then map_of (receivedValidPeerPublicKeySharePoints sm1) =
                (map_of (receivedValidPeerPublicKeySharePoints sm))(senderID m \<mapsto> message_publicKeySharePoints m)
              \<and> acc1 = acc
         else map_of acc1 = (map_of acc)(senderID m \<mapsto> PrivateKey keyPair)
              \<and> receivedValidPeerPublicKeySharePoints sm1 = receivedValidPeerPublicKeySharePoints sm"
    by blast
  have eq1: "pointsValid sm1 y = pointsValid sm y" for y
    using same by (rule pointsValid_sameInputs)
  have eq2: "ephemeralKeyPairs sm1 = ephemeralKeyPairs sm"
    using same by (simp add: sameInputs_def)
  have prems1: "\<forall>m\<in>set msgs. pointsValid sm1 m \<noteq> None \<and> ephemeralKeyPairs sm1 (senderID m) \<noteq> None"
    using Cons.prems by (simp add: eq1 eq2)
  from Cons.IH [OF prems1, of acc1] obtain sm' acc' where
    loop: "VerifyPublicKeySharePoints_loop sm1 msgs acc1 = Inr (sm', acc')"
    and accused: "\<forall>k. map_of acc' k =
           (if \<exists>m\<in>set msgs. senderID m = k \<and> pointsValid sm m = Some False
            then map_option PrivateKey (ephemeralKeyPairs sm k) else map_of acc1 k)"
    and recorded: "\<forall>k. map_of (receivedValidPeerPublicKeySharePoints sm') k =
           (case find (\<lambda>m. senderID m = k \<and> pointsValid sm m = Some True) (rev msgs) of
              None \<Rightarrow> map_of (receivedValidPeerPublicKeySharePoints sm1) k
            | Some m \<Rightarrow> Some (message_publicKeySharePoints m))"
    unfolding eq1 eq2 by blast
  have r1: "VerifyPublicKeySharePoints_loop sm (m # msgs) acc = Inr (sm', acc')"
    using body loop by simp
  have r2: "\<forall>k. map_of acc' k =
           (if \<exists>x\<in>set (m # msgs). senderID x = k \<and> pointsValid sm x = Some False
            then map_option PrivateKey (ephemeralKeyPairs sm k) else map_of acc k)"
  proof
    fix k
    show "map_of acc' k =
           (if \<exists>x\<in>set (m # msgs). senderID x = k \<and> pointsValid sm x = Some False
            then map_option PrivateKey (ephemeralKeyPairs sm k) else map_of acc k)"
    proof (cases "\<exists>x\<in>set msgs. senderID x = k \<and> pointsValid sm x = Some False")
      case True
      from accused have "map_of acc' k =
           (if \<exists>m\<in>set msgs. senderID m = k \<and> pointsValid sm m = Some False
            then map_option PrivateKey (ephemeralKeyPairs sm k) else map_of acc1 k)" ..
      with True have "map_of acc' k = map_option PrivateKey (ephemeralKeyPairs sm k)"
        by (simp only: if_True)
      with True show ?thesis by simp
    next
      case False
      from accused have "map_of acc' k =
           (if \<exists>m\<in>set msgs. senderID m = k \<and> pointsValid sm m = Some False
            then map_option PrivateKey (ephemeralKeyPairs sm k) else map_of acc1 k)" ..
      with False have "map_of acc' k = map_of acc1 k"
        by (simp only: if_False)
      with False step valid kp show ?thesis
        by (cases valid) auto
    qed
  qed
  have r3: "\<forall>k. map_of (receivedValidPeerPublicKeySharePoints sm') k =
           (case find (\<lambda>m. senderID m = k \<and> pointsValid sm m = Some True) (rev (m # msgs)) of
              None \<Rightarrow> map_of (receivedValidPeerPublicKeySharePoints sm) k
            | Some m \<Rightarrow> Some (message_publicKeySharePoints m))"
  proof
    fix k
    show "map_of (receivedValidPeerPublicKeySharePoints sm') k =
           (case find (\<lambda>m. senderID m = k \<and> pointsValid sm m = Some True) (rev (m # msgs)) of
              None \<Rightarrow> map_of (receivedValidPeerPublicKeySharePoints sm) k
            | Some m \<Rightarrow> Some (message_publicKeySharePoints m))"
    proof (cases "find (\<lambda>m. senderID m = k \<and> pointsValid sm m = Some True) (rev msgs)")
      case (Some x)
      from recorded have "map_of (receivedValidPeerPublicKeySharePoints sm') k =
           (case find (\<lambda>m. senderID m = k \<and> pointsValid sm m = Some True) (rev msgs) of
              None \<Rightarrow> map_of (receivedValidPeerPublicKeySharePoints sm1) k
            | Some m \<Rightarrow> Some (message_publicKeySharePoints m))" ..
      with Some show ?thesis
        by (simp add: find_append_cases)
    next
      case None
      from recorded have "map_of (receivedValidPeerPublicKeySharePoints sm') k =
           (case find (\<lambda>m. senderID m = k \<and> pointsValid sm m = Some True) (rev msgs) of
              None \<Rightarrow> map_of (receivedValidPeerPublicKeySharePoints sm1) k
            | Some m \<Rightarrow> Some (message_publicKeySharePoints m))" ..
      with None have "map_of (receivedValidPeerPublicKeySharePoints sm') k =
          map_of (receivedValidPeerPublicKeySharePoints sm1) k"
        by simp
      with None step valid show ?thesis
        by (cases valid) (auto simp: find_append_cases)
    qed
  qed
  from r1 r2 r3 show ?case by (intro exI conjI)
qed

section \<open>Phase 4 on messages without a counterpart\<close>

text \<open>
  A shares message is read only through the search for the sender of a commitments
  message, so one whose sender sent no commitments message never takes part. The loop
  changes neither the configuration nor the keys of the member, and it does not panic
  when \<open>P\<close> is not zero and a key pair is held for every peer with a symmetric key.
\<close>

lemma find_without:
  "\<not> P s \<Longrightarrow> find P (before @ s # after) = find P (before @ after)"
  by (induction before) simp_all

lemma body_ignores_unpaired:
  "senderID c \<noteq> senderID s \<Longrightarrow>
     VerifyReceivedSharesAndCommitmentsMessages_body cvm (before @ s # after) c accused =
       VerifyReceivedSharesAndCommitmentsMessages_body cvm (before @ after) c accused"
proof -
  assume "senderID c \<noteq> senderID s"
  then have "\<not> (\<lambda>sharesMessage. senderID sharesMessage = senderID c) s" by simp
  then have "find (\<lambda>sharesMessage. senderID sharesMessage = senderID c) (before @ s # after) =
      find (\<lambda>sharesMessage. senderID sharesMessage = senderID c) (before @ after)"
    by (rule find_without)
  then show ?thesis
    by (simp only: VerifyReceivedSharesAndCommitmentsMessages_body_def)
qed

lemma loop_ignores_unpaired:
  "\<forall>c\<in>set cs. senderID c \<noteq> senderID s \<Longrightarrow>
     VerifyReceivedSharesAndCommitmentsMessages_loop cvm (before @ s # after) cs accused =
       VerifyReceivedSharesAndCommitmentsMessages_loop cvm (before @ after) cs accused"
proof (induction cs arbitrary: cvm accused)
  case Nil
  show ?case by simp
next
  case (Cons c cs)
  then have c: "senderID c \<noteq> senderID s" and rest: "\<forall>c\<in>set cs. senderID c \<noteq> senderID s"
    by simp_all
  show ?case
    by (simp add: body_ignores_unpaired [OF c] Cons.IH [OF rest] split: sum.split)
qed

lemma VerifyReceived_body_frame:
  assumes "VerifyReceivedSharesAndCommitmentsMessages_body cvm sharesMessages c accused = Inr (cvm', accused')"
  shows "protocolConfig cvm' = protocolConfig cvm \<and> symmetricKeys cvm' = symmetricKeys cvm
     \<and> ephemeralKeyPairs cvm' = ephemeralKeyPairs cvm"
  using assms
  by (auto simp: VerifyReceivedSharesAndCommitmentsMessages_body_def
      split: option.splits sum.splits bool.splits)

lemma VerifyReceived_body_no_panic:
  assumes "dkg_P (protocolConfig cvm) \<noteq> 0"
    and "\<forall>k. symmetricKeys cvm k \<noteq> None \<longrightarrow> ephemeralKeyPairs cvm k \<noteq> None"
  shows "VerifyReceivedSharesAndCommitmentsMessages_body cvm sharesMessages c accused \<noteq> Inl Panic"
proof (cases "find (\<lambda>sharesMessage. senderID sharesMessage = senderID c) sharesMessages")
  case None
  then show ?thesis
    by (simp add: VerifyReceivedSharesAndCommitmentsMessages_body_def)
next
  case found: (Some sharesMessage)
  then have sender: "senderID sharesMessage = senderID c"
    by (auto simp: find_Some_iff)
  show ?thesis
  proof (cases "symmetricKeys cvm (senderID sharesMessage)")
    case None
    with found show ?thesis
      by (simp add: VerifyReceivedSharesAndCommitmentsMessages_body_def)
  next
    case key: (Some symmetricKey)
    with assms(2) sender obtain keyPair where kp: "ephemeralKeyPairs cvm (senderID c) = Some keyPair"
      by (metis option.exhaust option.distinct(1))
    have valid: "areSharesValidAgainstCommitments (protocolConfig cvm) (vss cvm) s t (commitments c) (ID cvm) \<noteq> None"
      for s t
      using assms(1) by (rule areSharesValidAgainstCommitments_defined)
    from found key kp show ?thesis
      by (auto simp: VerifyReceivedSharesAndCommitmentsMessages_body_def valid
          split: option.splits sum.splits bool.splits)
  qed
qed

lemma VerifyReceived_loop_no_panic:
  assumes "dkg_P (protocolConfig cvm) \<noteq> 0"
    and "\<forall>k. symmetricKeys cvm k \<noteq> None \<longrightarrow> ephemeralKeyPairs cvm k \<noteq> None"
  shows "VerifyReceivedSharesAndCommitmentsMessages_loop cvm sharesMessages cs accused \<noteq> Inl Panic"
  using assms
proof (induction cs arbitrary: cvm accused)
  case Nil
  show ?case by simp
next
  case (Cons c cs)
  show ?case
  proof (cases "VerifyReceivedSharesAndCommitmentsMessages_body cvm sharesMessages c accused")
    case (Inl err)
    with VerifyReceived_body_no_panic [OF Cons.prems, of sharesMessages c accused] show ?thesis
      by simp
  next
    case (Inr r)
    obtain cvm1 accused1 where r: "r = (cvm1, accused1)" by (cases r)
    from VerifyReceived_body_frame [OF Inr [unfolded r]] Cons.prems
    have "dkg_P (protocolConfig cvm1) \<noteq> 0"
      and "\<forall>k. symmetricKeys cvm1 k \<noteq> None \<longrightarrow> ephemeralKeyPairs cvm1 k \<noteq> None"
      by simp_all
    from Cons.IH [OF this] Inr r show ?thesis
      by simp
  qed
qed

section \<open>Honest shares pass the verification (C3)\<close>

text \<open>
  C3. For every configuration with positive \<open>P\<close> and \<open>Q\<close> in which the \<open>Q\<close>-th powers of \<open>G\<close>
  and of \<open>H\<close> are 1 modulo \<open>P\<close> (as for \<open>P = 2Q + 1\<close> and generators of order \<open>Q\<close>), for
  all coefficient vectors \<open>a\<close> and \<open>b\<close> of one length with entries that are not negative (as
  the entries in \<open>(0, Q)\<close> are), and for every member ID \<open>j\<close>: the commitments
  \<open>C[k] = G^(a_k) * H^(b_k) mod P\<close> and the shares \<open>s = evaluateMemberShare(j, a)\<close> and
  \<open>t = evaluateMemberShare(j, b)\<close> are computed without a panic, and
  \<open>areSharesValidAgainstCommitments(s, t, C, j)\<close> returns true.
\<close>

theorem honest_shares_valid_against_commitments:
  assumes "0 < dkg_Q cfg" and "0 < dkg_P cfg"
    and "Int_Exp (vss_G v) (dkg_Q cfg) (dkg_P cfg) = 1"
    and "Int_Exp (vss_H v) (dkg_Q cfg) (dkg_P cfg) = 1"
    and "length a = length b"
    and "\<forall>x\<in>set a. 0 \<le> x" and "\<forall>x\<in>set b. 0 \<le> x"
  shows "\<exists>C s t. calculateCommitments cfg v a b = Some C
           \<and> evaluateMemberShare cfg j a = Some s
           \<and> evaluateMemberShare cfg j b = Some t
           \<and> areSharesValidAgainstCommitments cfg v s t C j = Some True"
proof -
  let ?g = "vss_G v" and ?h = "vss_H v" and ?p = "dkg_P cfg" and ?q = "dkg_Q cfg"
  let ?S = "polynomial_sum j 0 a" and ?T = "polynomial_sum j 0 b"
  obtain C where C: "calculateCommitments cfg v a b = Some C"
    using calculateCommitments_Some [OF assms(5,2)] by blast
  have p1: "(1::int) mod ?p = 1"
    using assms(2,3) by (cases "?p = 1") (auto simp: Int_Exp_def)
  have g: "?g ^ nat ?q mod ?p = 1 mod ?p" and h: "?h ^ nat ?q mod ?p = 1 mod ?p"
    using assms(2,3,4) p1 by (simp_all add: Int_Exp_def)
  have S: "0 \<le> ?S" and T: "0 \<le> ?T"
    using assms(6,7) by (simp_all add: polynomial_sum_nonneg)
  have expected: "CalculateCommitment v (?S mod ?q) (?T mod ?q) ?p =
      Some (?g ^ nat ?S * ?h ^ nat ?T mod ?p)"
  proof -
    have "?g ^ nat (?S mod ?q) * ?h ^ nat (?T mod ?q) mod ?p =
        (?g ^ nat (?S mod ?q) mod ?p) * (?h ^ nat (?T mod ?q) mod ?p) mod ?p"
      by (simp add: mod_mult_eq)
    also have "\<dots> = (?g ^ nat ?S mod ?p) * (?h ^ nat ?T mod ?p) mod ?p"
      by (simp only: power_mod_order [OF g assms(1) S] power_mod_order [OF h assms(1) T])
    finally show ?thesis
      using assms(2) by (simp add: CalculateCommitment_eq mod_mult_eq)
  qed
  have product: "product_loop ?p j 0 C 1 = Some (?g ^ nat ?S * ?h ^ nat ?T mod ?p)"
  proof (cases "C = []")
    case True
    with C have "a = []" by (simp add: calculateCommitments_Nil)
    with assms(5) have "b = []" by simp
    with \<open>a = []\<close> True show ?thesis by (simp add: p1)
  next
    case False
    then show ?thesis
      using exponent_product_commitments [OF assms(2,5,6,7) C, of j 0] assms(2)
      by (simp add: product_loop_eq)
  qed
  have "areSharesValidAgainstCommitments cfg v (?S mod ?q) (?T mod ?q) C j = Some True"
    by (simp add: areSharesValidAgainstCommitments_def product expected)
  then show ?thesis
    using C assms(1) by (simp add: evaluateMemberShare_eq)
qed

theorem honest_shares_valid_against_commitments_witness:
  "calculateCommitments cfg7 vss7 [1, 2] [2, 1] = Some [4, 2]
   \<and> evaluateMemberShare cfg7 2 [1, 2] = Some 2
   \<and> evaluateMemberShare cfg7 2 [2, 1] = Some 1
   \<and> areSharesValidAgainstCommitments cfg7 vss7 2 1 [4, 2] 2 = Some True"
proof -
  have "\<exists>C s t. calculateCommitments cfg7 vss7 [1, 2] [2, 1] = Some C
           \<and> evaluateMemberShare cfg7 2 [1, 2] = Some s
           \<and> evaluateMemberShare cfg7 2 [2, 1] = Some t
           \<and> areSharesValidAgainstCommitments cfg7 vss7 s t C 2 = Some True"
    by (rule honest_shares_valid_against_commitments)
      (simp_all add: cfg7_def vss7_def Int_Exp_def)
  moreover have "calculateCommitments cfg7 vss7 [1, 2] [2, 1] = Some [4, 2]"
    by (simp add: cfg7_def vss7_def CalculateCommitment_def Int_Exp_def Int_Mod_def)
  moreover have "evaluateMemberShare cfg7 2 [1, 2] = Some 2"
    by (simp add: cfg7_def evaluateMemberShare_def Int_Mod_def pow_def)
  moreover have "evaluateMemberShare cfg7 2 [2, 1] = Some 1"
    by (simp add: cfg7_def evaluateMemberShare_def Int_Mod_def pow_def)
  ultimately show ?thesis by auto
qed

section \<open>The verdict on an accusation against shares (C1)\<close>

text \<open>
  C1. Take an accusation of the accuser \<open>accuserID\<close> against \<open>accusedID\<close> that
  \<open>ResolveSecretSharesAccusationsMessages\<close> processes for a judge who is neither of them, with
  the symmetric key and the shares \<open>(shareS, shareT)\<close> recovered from the evidence log, and let
  \<open>valid\<close> be what \<open>areSharesValidAgainstCommitments\<close> returns on these shares, the commitments
  the judge holds for the accused, and the ID of the accuser. Then the loop body appends
  exactly one member to the list of disqualified members: the accuser when \<open>valid\<close> is true,
  the accused otherwise. And when the whole call returns a list, that list is the list as
  it stood before this accusation (after the earlier messages and the earlier entries of
  this message), then this one member, then what the later accusations added.
\<close>

theorem accusation_verdict:
  assumes "ID sjm \<noteq> accuserID" and "ID sjm \<noteq> accusedID"
    and "recoverSymmetricKey (evidenceLog sjm) accusedID accuserID revealedKey = Inr symmetricKey"
    and "recoverShares (evidenceLog sjm) accusedID accuserID symmetricKey = Inr (shareS, shareT)"
    and "areSharesValidAgainstCommitments (protocolConfig sjm) (vss sjm) shareS shareT
           (case receivedValidPeerCommitments sjm accusedID of None \<Rightarrow> [] | Some c \<Rightarrow> c) accuserID = Some valid"
  shows "ResolveSecretSharesAccusationsMessages_body sjm accuserID (accusedID, revealedKey) disqualified =
           Inr (disqualified @ [if valid then accuserID else accusedID])
       \<and> (ResolveSecretSharesAccusationsMessages_loop sjm earlier [] = Inr dq0 \<longrightarrow>
          ResolveSecretSharesAccusationsMessages_inner sjm accuserID es1 dq0 = Inr dq \<longrightarrow>
          ResolveSecretSharesAccusationsMessages sjm
              (earlier @ \<lparr>senderID = accuserID, accusedMembersKeys = es1 @ (accusedID, revealedKey) # es2\<rparr> # later) =
            (sjm, Inr disqualifiedMembers) \<longrightarrow>
          (\<exists>rest. disqualifiedMembers = dq @ [if valid then accuserID else accusedID] @ rest))"
proof (intro conjI impI)
  have body: "ResolveSecretSharesAccusationsMessages_body sjm accuserID (accusedID, revealedKey) d =
      Inr (d @ [if valid then accuserID else accusedID])" for d
    using assms by (simp add: ResolveSecretSharesAccusationsMessages_body_def)
  show "ResolveSecretSharesAccusationsMessages_body sjm accuserID (accusedID, revealedKey) disqualified =
      Inr (disqualified @ [if valid then accuserID else accusedID])"
    by (rule body)
  let ?v = "if valid then accuserID else accusedID"
  assume pre: "ResolveSecretSharesAccusationsMessages_loop sjm earlier [] = Inr dq0"
    and es1: "ResolveSecretSharesAccusationsMessages_inner sjm accuserID es1 dq0 = Inr dq"
    and all: "ResolveSecretSharesAccusationsMessages sjm
        (earlier @ \<lparr>senderID = accuserID, accusedMembersKeys = es1 @ (accusedID, revealedKey) # es2\<rparr> # later) =
      (sjm, Inr disqualifiedMembers)"
  from all pre es1 obtain dq1 where
    1: "ResolveSecretSharesAccusationsMessages_inner sjm accuserID es2 (dq @ [?v]) = Inr dq1"
    and 2: "ResolveSecretSharesAccusationsMessages_loop sjm later dq1 = Inr disqualifiedMembers"
    by (auto simp: ResolveSecretSharesAccusationsMessages_def ResolveSecretShares_loop_append
        ResolveSecretShares_inner_append body split: sum.splits)
  from ResolveSecretShares_inner_extends [OF 1] ResolveSecretShares_loop_extends [OF 2]
  show "\<exists>rest. disqualifiedMembers = dq @ [?v] @ rest"
    by auto
qed

theorem accusation_verdict_witness:
  "ResolveSecretSharesAccusationsMessages_body judge 1 (2, PrivKey 12) [] = Inr [1]
   \<and> ResolveSecretSharesAccusationsMessages judge [accusation12] = (judge, Inr [1])"
proof -
  have a: "ID judge \<noteq> 1" "ID judge \<noteq> 2"
    by (simp_all add: scenario_defs)
  have b: "recoverSymmetricKey (evidenceLog judge) 2 1 (PrivKey 12) = Inr (SymKey 12 21)"
    by (simp add: resolve_defs scenario_defs)
  have c: "recoverShares (evidenceLog judge) 2 1 (SymKey 12 21) = Inr (0, 0)"
    by (simp add: resolve_defs scenario_defs)
  have d: "areSharesValidAgainstCommitments (protocolConfig judge) (vss judge) 0 0
           (case receivedValidPeerCommitments judge 2 of None \<Rightarrow> [] | Some c \<Rightarrow> c) 1 = Some True"
    by (simp add: resolve_defs scenario_defs)
  have e: "ResolveSecretSharesAccusationsMessages judge [accusation12] = (judge, Inr [1])"
    by (simp add: resolve_defs scenario_defs)
  from accusation_verdict [OF a b c d, of "[]" "[]" "[]" "[]" "[]" "[]" "[]" "[1]"] e
  show ?thesis
    by simp
qed

section \<open>Reconstruction of an individual key (C2)\<close>

text \<open>
  C2. Let \<open>Q\<close> be a prime, and let every revealed \<open>DisqualifiedShares\<close> record hold peer IDs
  that are pairwise distinct modulo \<open>Q\<close>, the records being of different members. Let the
  record of the disqualified member \<open>m\<close> hold, for at least as many peers as the polynomial
  has coefficients (more than its degree \<open>t\<close>), the shares that \<open>evaluateMemberShare\<close>
  computes from these coefficients, whose first is \<open>z_m\<close>. Then, for every order in which
  the maps are visited, \<open>ReconstructIndividualPrivateKeys\<close> returns without a panic and maps
  \<open>m\<close> to \<open>z_m mod Q\<close>; \<open>ReconstructIndividualPublicKeys\<close> maps \<open>m\<close> to
  \<open>G^(z_m mod Q) mod P\<close>; and for \<open>z_m\<close> in \<open>[0, Q)\<close>, as an honestly generated coefficient
  is, this is the first point \<open>A_m[0]\<close> that \<open>CalculatePublicKeySharePoints\<close> publishes for a
  member with these coefficients under the same configuration.
\<close>

theorem reconstruction_of_individual_keys:
  assumes "primeModulus (dkg_Q (protocolConfig rm))"
    and "\<forall>d\<in>set revealed. reconstructible (dkg_Q (protocolConfig rm)) keysOrder d"
    and "distinct (map disqualifiedMemberID revealed)"
    and "ds \<in> set revealed"
    and "coefficients \<noteq> []" and "length coefficients \<le> length (peerSharesS ds)"
    and "\<forall>e\<in>set (peerSharesS ds).
           evaluateMemberShare (protocolConfig rm) (fst e) coefficients = Some (snd e)"
  shows "\<exists>rm'. ReconstructIndividualPrivateKeys rm keysOrder revealed = Inr rm'
     \<and> map_of (reconstructedIndividualPrivateKeys rm') (disqualifiedMemberID ds) =
         Some (hd coefficients mod dkg_Q (protocolConfig rm))
     \<and> map_of (reconstructedIndividualPublicKeys (ReconstructIndividualPublicKeys rm'))
           (disqualifiedMemberID ds) =
         Some (Int_Exp (vss_G (vss rm)) (hd coefficients mod dkg_Q (protocolConfig rm))
                 (dkg_P (protocolConfig rm)))
     \<and> (0 \<le> hd coefficients \<and> hd coefficients < dkg_Q (protocolConfig rm) \<longrightarrow>
          (\<forall>dm. secretCoefficients dm = coefficients \<and> vss dm = vss rm
                 \<and> protocolConfig dm = protocolConfig rm \<longrightarrow>
             map_of (reconstructedIndividualPublicKeys (ReconstructIndividualPublicKeys rm'))
                 (disqualifiedMemberID ds) =
               Some (hd (message_publicKeySharePoints (snd (CalculatePublicKeySharePoints dm))))))"
proof -
  let ?cfg = "protocolConfig rm" and ?m = "disqualifiedMemberID ds"
  let ?z = "hd coefficients mod dkg_Q ?cfg"
  have "\<forall>d\<in>set revealed. individualPrivateKey_loop ?cfg (keysOrder d) (peerSharesS d) 0 \<noteq> None"
    using assms(1,2) by (simp add: reconstructible_defined)
  from ReconstructIndividualPrivateKeys_loop_result [OF this assms(3), of "[]"] obtain keys' where
    run: "ReconstructIndividualPrivateKeys_loop ?cfg keysOrder revealed [] = Some keys'"
    and each: "\<forall>d\<in>set revealed. map_of keys' (disqualifiedMemberID d) =
           individualPrivateKey_loop ?cfg (keysOrder d) (peerSharesS d) 0"
    by blast
  from assms(2,4) have "reconstructible (dkg_Q ?cfg) keysOrder ds"
    by simp
  from reconstruction_of_honest_shares [OF assms(1) this assms(6,5,7)] each assms(4)
  have key: "map_of keys' ?m = Some ?z"
    by simp
  let ?rm' = "rm\<lparr>reconstructedIndividualPrivateKeys := keys'\<rparr>"
  have 1: "ReconstructIndividualPrivateKeys rm keysOrder revealed = Inr ?rm'"
    by (simp add: ReconstructIndividualPrivateKeys_def run)
  have 2: "map_of (reconstructedIndividualPrivateKeys ?rm') ?m = Some ?z"
    using key by simp
  have 3: "map_of (reconstructedIndividualPublicKeys (ReconstructIndividualPublicKeys ?rm')) ?m =
      Some (Int_Exp (vss_G (vss rm)) ?z (dkg_P ?cfg))"
    using key by (simp add: ReconstructIndividualPublicKeys_def map_of_map)
  have 4: "0 \<le> hd coefficients \<and> hd coefficients < dkg_Q ?cfg \<longrightarrow>
          (\<forall>dm. secretCoefficients dm = coefficients \<and> vss dm = vss rm
                 \<and> protocolConfig dm = ?cfg \<longrightarrow>
             map_of (reconstructedIndividualPublicKeys (ReconstructIndividualPublicKeys ?rm')) ?m =
               Some (hd (message_publicKeySharePoints (snd (CalculatePublicKeySharePoints dm)))))"
  proof (intro impI allI)
    fix dm :: Member
    assume range: "0 \<le> hd coefficients \<and> hd coefficients < dkg_Q ?cfg"
      and dm: "secretCoefficients dm = coefficients \<and> vss dm = vss rm \<and> protocolConfig dm = ?cfg"
    from range have "?z = hd coefficients"
      by simp
    moreover have "hd (message_publicKeySharePoints (snd (CalculatePublicKeySharePoints dm))) =
        Int_Exp (vss_G (vss rm)) (hd coefficients) (dkg_P ?cfg)"
      using dm assms(5) by (cases coefficients) (simp_all add: CalculatePublicKeySharePoints_def Let_def)
    ultimately show "map_of (reconstructedIndividualPublicKeys (ReconstructIndividualPublicKeys ?rm')) ?m =
        Some (hd (message_publicKeySharePoints (snd (CalculatePublicKeySharePoints dm))))"
      using 3 by simp
  qed
  from 1 2 3 4 show ?thesis
    by (intro exI conjI)
qed

theorem reconstruction_of_individual_keys_witness:
  "ReconstructIndividualPrivateKeys member3_phase11 keysOrder413 [revealedShares2] =
     Inr (member3_phase11\<lparr>reconstructedIndividualPrivateKeys := [(2, 5)]\<rparr>)
   \<and> map_of (reconstructedIndividualPublicKeys (ReconstructIndividualPublicKeys
        (member3_phase11\<lparr>reconstructedIndividualPrivateKeys := [(2, 5)]\<rparr>))) 2 = Some 9
   \<and> hd (message_publicKeySharePoints (snd (CalculatePublicKeySharePoints
        (member3_phase11\<lparr>secretCoefficients := [5, 7]\<rparr>)))) = 9"
proof -
  have h1: "primeModulus (dkg_Q (protocolConfig member3_phase11))"
    by (simp add: member3_phase11_def cfg23_def primeModulus_def) code_simp
  have h2: "\<forall>d\<in>set [revealedShares2].
      reconstructible (dkg_Q (protocolConfig member3_phase11)) keysOrder413 d"
    by (simp add: reconstructible_def distinctModulo_def revealedShares2_def keysOrder413_def
        member3_phase11_def cfg23_def)
  have h3: "distinct (map disqualifiedMemberID [revealedShares2])"
    by simp
  have h4: "revealedShares2 \<in> set [revealedShares2]"
    by simp
  have h5: "[5, 7] \<noteq> ([]::int list)" "length [5, 7 :: int] \<le> length (peerSharesS revealedShares2)"
    by (simp_all add: revealedShares2_def)
  have h6: "\<forall>e\<in>set (peerSharesS revealedShares2).
      evaluateMemberShare (protocolConfig member3_phase11) (fst e) [5, 7] = Some (snd e)"
    by (simp add: revealedShares2_def member3_phase11_def cfg23_def evaluateMemberShare_def
        Int_Mod_def pow_def)
  have run: "ReconstructIndividualPrivateKeys member3_phase11 keysOrder413 [revealedShares2] =
     Inr (member3_phase11\<lparr>reconstructedIndividualPrivateKeys := [(2, 5)]\<rparr>)"
  proof -
    have "ReconstructIndividualPrivateKeys_loop cfg23 keysOrder413 [revealedShares2] [] = Some [(2, 5)]"
      by code_simp
    then show ?thesis
      by (simp add: ReconstructIndividualPrivateKeys_def member3_phase11_def)
  qed
  have pub: "hd (message_publicKeySharePoints (snd (CalculatePublicKeySharePoints
        (member3_phase11\<lparr>secretCoefficients := [5, 7]\<rparr>)))) = 9"
    by (simp add: CalculatePublicKeySharePoints_def Let_def member3_phase11_def cfg23_def vss23_def
        Int_Exp_def)
  from reconstruction_of_individual_keys [OF h1 h2 h3 h4 h5 h6] run pub show ?thesis
    by (auto simp: revealedShares2_def member3_phase11_def cfg23_def vss23_def Int_Exp_def)
qed

section \<open>The Lagrange coefficient (C4)\<close>

text \<open>
  C4, as stated, fails: the member IDs 1 and 4 are distinct, but with \<open>Q = 3\<close> their
  difference has no inverse modulo \<open>Q\<close>; \<open>ModInverse\<close> returns nil and the multiplication
  panics, so that \<open>calculateLagrangeCoefficient\<close> returns nothing.
\<close>

theorem lagrange_coefficient_panics_on_congruent_ids:
  "calculateLagrangeCoefficient cfg7 1 [1, 4] = None"
  by code_simp

text \<open>
  C4, amended. Let \<open>Q\<close> be greater than 1 and let the difference \<open>l - k\<close> be relatively prime
  to \<open>Q\<close> for every peer ID \<open>l\<close> other than \<open>k\<close> (for a prime \<open>Q\<close>: no other peer ID is
  congruent to \<open>k\<close> modulo \<open>Q\<close>). Then \<open>calculateLagrangeCoefficient(k, peerIDs)\<close> returns
  the product over the peer IDs \<open>l\<close> other than \<open>k\<close> of \<open>l * (l - k)^(-1)\<close>, reduced modulo
  \<open>Q\<close>, a number in \<open>[0, Q)\<close>: each inverse is the one \<open>ModInverse\<close> returns, it lies in
  \<open>[0, Q)\<close> and is the inverse modulo \<open>Q\<close> of the difference reduced modulo \<open>Q\<close>; and the
  result times the product of the differences is congruent modulo \<open>Q\<close> to the product of
  the other IDs.
\<close>

theorem lagrange_coefficient_over_invertible_differences:
  assumes "1 < dkg_Q cfg"
    and "\<forall>l\<in>set peerIDs. l \<noteq> k \<longrightarrow> coprime (int l - int k) (dkg_Q cfg)"
  shows "\<exists>c. calculateLagrangeCoefficient cfg k peerIDs = Some c
      \<and> 0 \<le> c \<and> c < dkg_Q cfg
      \<and> c = prod_list (map (\<lambda>l. int l * inverseOfDifference (dkg_Q cfg) k l) (otherIDs k peerIDs))
              mod dkg_Q cfg
      \<and> (\<forall>l\<in>set (otherIDs k peerIDs).
            Int_ModInverse (int l - int k) (dkg_Q cfg) = Some (inverseOfDifference (dkg_Q cfg) k l)
            \<and> 0 \<le> inverseOfDifference (dkg_Q cfg) k l \<and> inverseOfDifference (dkg_Q cfg) k l < dkg_Q cfg
            \<and> inverseOfDifference (dkg_Q cfg) k l * ((int l - int k) mod dkg_Q cfg) mod dkg_Q cfg = 1)
      \<and> c * prod_list (map (\<lambda>l. int l - int k) (otherIDs k peerIDs)) mod dkg_Q cfg =
          prod_list (map int (otherIDs k peerIDs)) mod dkg_Q cfg"
proof -
  let ?q = "dkg_Q cfg" and ?others = "otherIDs k peerIDs"
  let ?c = "prod_list (map (\<lambda>l. int l * inverseOfDifference ?q k l) ?others) mod ?q"
  have q: "0 < ?q" and one: "1 mod ?q = 1"
    using assms(1) by simp_all
  have others: "\<forall>l\<in>set ?others. coprime (int l - int k) ?q"
    using assms(2) by (simp add: otherIDs_def)
  have run: "calculateLagrangeCoefficient cfg k peerIDs = Some ?c"
    using one by (simp add: calculateLagrangeCoefficient_def
        calculateLagrangeCoefficient_loop_eq [OF q assms(2)])
  have range: "0 \<le> ?c" "?c < ?q"
    using q by simp_all
  have inverses: "\<forall>l\<in>set ?others.
            Int_ModInverse (int l - int k) ?q = Some (inverseOfDifference ?q k l)
            \<and> 0 \<le> inverseOfDifference ?q k l \<and> inverseOfDifference ?q k l < ?q
            \<and> inverseOfDifference ?q k l * ((int l - int k) mod ?q) mod ?q = 1"
    using inverseOfDifference_props [OF q] others one by simp
  have "\<forall>l\<in>set ?others. inverseOfDifference ?q k l * (int l - int k) mod ?q = 1 mod ?q"
    using inverseOfDifference_props(5) [OF q] others by simp
  from prod_list_inverses [OF this, of int]
  have "?c * prod_list (map (\<lambda>l. int l - int k) ?others) mod ?q = prod_list (map int ?others) mod ?q"
    by (simp add: mod_mult_left_eq)
  with run range inverses show ?thesis by blast
qed

theorem lagrange_coefficient_over_invertible_differences_witness:
  "calculateLagrangeCoefficient cfg7 1 [1, 2] = Some 2
   \<and> Int_ModInverse (int 2 - int 1) (dkg_Q cfg7) = Some 1
   \<and> (2::int) * prod_list (map (\<lambda>l. int l - int 1) (otherIDs 1 [1, 2])) mod dkg_Q cfg7 =
        prod_list (map int (otherIDs 1 [1, 2])) mod dkg_Q cfg7"
proof -
  have h1: "1 < dkg_Q cfg7"
    by (simp add: cfg7_def)
  have h2: "\<forall>l\<in>set [1, 2]. l \<noteq> 1 \<longrightarrow> coprime (int l - int 1) (dkg_Q cfg7)"
    by (simp add: cfg7_def)
  have v: "calculateLagrangeCoefficient cfg7 1 [1, 2] = Some 2"
    by code_simp
  have i: "Int_ModInverse (int 2 - int 1) (dkg_Q cfg7) = Some 1"
    by code_simp
  from lagrange_coefficient_over_invertible_differences [OF h1 h2] v i show ?thesis
    by auto
qed

section \<open>A revealed key that does not match (C5)\<close>

text \<open>
  C5, as stated, fails: when the accuser 1 reveals the key 13 in place of its key 12 for
  the channel with member 2, the judge cannot decrypt the recorded shares, and Phase 5
  returns the error and no list of disqualified members; the accuser is not disqualified.
\<close>

theorem mismatched_revealed_key_accuser_not_disqualified:
  "ResolveSecretSharesAccusationsMessages judge [accusation12_wrong_key] =
     (judge, Inl (CouldNotDecryptShares (CannotDecryptShareS AuthFailed)))"
  by (simp add: resolve_defs scenario_defs)

text \<open>
  C5, amended. Let the evidence log of a member hold the Phase 1 messages of the accuser
  and of the accused, with the public keys \<open>a\<close> and \<open>b\<close> of their channel, and the shares
  message of the accused, whose shares for the accuser are encrypted under the key of that
  channel. If \<open>P\<close> is not zero and an accusation of the list reveals a private key \<open>a'\<close> that
  is not the one of \<open>a\<close>, then the resolution functions of Phase 5 and of Phase 9 both return
  an error and no list of disqualified members, with the member's state as it was. On that
  accusation the loop body ends with the error of the failed decryption (\<open>could not decrypt
  shares\<close> in Phase 5, \<open>could not decrypt share S\<close> in Phase 9), or with the error of a judge
  who is a party of the dispute.
\<close>

theorem mismatched_revealed_key_aborts_resolution:
  assumes "dkg_P (protocolConfig member) \<noteq> 0"
    and "message \<in> set messages"
    and "(accusedID, PrivKey a') \<in> set (accusedMembersKeys message)"
    and "ephemeralPublicKeyMessage (evidenceLog member) (senderID message) = Some accuserKeys"
    and "ephemeralPublicKeys accuserKeys accusedID = Some (PubKey a)"
    and "ephemeralPublicKeyMessage (evidenceLog member) accusedID = Some accusedKeys"
    and "ephemeralPublicKeys accusedKeys (senderID message) = Some (PubKey b)"
    and "peerSharesMessage (evidenceLog member) accusedID = Some psm"
    and "shares psm (senderID message) = Some (Encrypted (Ecdh (PrivKey b) (PubKey a)) s t)"
    and "a' \<noteq> a"
  shows "(\<exists>err. err \<noteq> Panic \<and>
            ResolveSecretSharesAccusationsMessages member messages = (member, Inl err))
       \<and> (\<exists>err. err \<noteq> Panic \<and>
            ResolvePublicKeySharePointsAccusationsMessages member messages = (member, Inl err))
       \<and> ResolveSecretSharesAccusationsMessages_body member (senderID message) (accusedID, PrivKey a') dq =
            (if ID member = senderID message \<or> ID member = accusedID
             then Inl CurrentMemberPartOfDispute
             else Inl (CouldNotDecryptShares (CannotDecryptShareS AuthFailed)))
       \<and> ResolvePublicKeySharePointsAccusationsMessages_body member (senderID message) (accusedID, PrivKey a') dq =
            (if ID member = senderID message \<or> ID member = accusedID
             then Inl CurrentMemberPartOfDispute
             else Inl (CouldNotDecryptShareS (CannotDecryptShareS AuthFailed)))"
proof -
  let ?accuser = "senderID message"
  have key: "recoverSymmetricKey (evidenceLog member) accusedID ?accuser (PrivKey a') =
      Inr (Ecdh (PrivKey a') (PubKey b))"
    using assms(6,7) by (simp add: recoverSymmetricKey_def del: Ecdh.simps)
  have shares: "recoverShares (evidenceLog member) accusedID ?accuser (Ecdh (PrivKey a') (PubKey b)) =
      Inl (CannotDecryptShareS AuthFailed)"
    using recoverShares_wrong_key [OF assms(8,9) Ecdh_mismatch [OF assms(10)]] .
  have body5: "ResolveSecretSharesAccusationsMessages_body member ?accuser (accusedID, PrivKey a') d =
      (if ID member = ?accuser \<or> ID member = accusedID
       then Inl CurrentMemberPartOfDispute
       else Inl (CouldNotDecryptShares (CannotDecryptShareS AuthFailed)))" for d
    by (simp add: ResolveSecretSharesAccusationsMessages_body_def key shares del: Ecdh.simps)
  have body9: "ResolvePublicKeySharePointsAccusationsMessages_body member ?accuser (accusedID, PrivKey a') d =
      (if ID member = ?accuser \<or> ID member = accusedID
       then Inl CurrentMemberPartOfDispute
       else Inl (CouldNotDecryptShareS (CannotDecryptShareS AuthFailed)))" for d
    by (simp add: ResolvePublicKeySharePointsAccusationsMessages_body_def key shares del: Ecdh.simps)
  have "\<forall>d. \<exists>err. ResolveSecretSharesAccusationsMessages_body member ?accuser
      (accusedID, PrivKey a') d = Inl err"
    by (simp add: body5)
  from ResolveSecretShares_loop_fails [OF assms(2,3) this, of "[]"]
    ResolveSecretShares_loop_no_panic [OF assms(1), of messages "[]"]
  have five: "\<exists>err. err \<noteq> Panic \<and>
      ResolveSecretSharesAccusationsMessages member messages = (member, Inl err)"
    by (auto simp: ResolveSecretSharesAccusationsMessages_def)
  have "\<forall>d. \<exists>err. ResolvePublicKeySharePointsAccusationsMessages_body member ?accuser
      (accusedID, PrivKey a') d = Inl err"
    by (simp add: body9)
  from ResolvePublicKeySharePoints_loop_fails [OF assms(2,3) this, of "[]"]
    ResolvePublicKeySharePoints_loop_no_panic [OF assms(1), of messages "[]"]
  have nine: "\<exists>err. err \<noteq> Panic \<and>
      ResolvePublicKeySharePointsAccusationsMessages member messages = (member, Inl err)"
    by (auto simp: ResolvePublicKeySharePointsAccusationsMessages_def)
  from five nine body5 [of dq] body9 [of dq] show ?thesis by blast
qed

theorem mismatched_revealed_key_aborts_resolution_witness:
  "ResolveSecretSharesAccusationsMessages judge [accusation12_wrong_key] =
     (judge, Inl (CouldNotDecryptShares (CannotDecryptShareS AuthFailed)))
   \<and> ResolvePublicKeySharePointsAccusationsMessages judge [accusation12_wrong_key] =
     (judge, Inl (CouldNotDecryptShareS (CannotDecryptShareS AuthFailed)))"
proof -
  have "ResolveSecretSharesAccusationsMessages_body judge (senderID accusation12_wrong_key) (2, PrivKey 13) [] =
            (if ID judge = senderID accusation12_wrong_key \<or> ID judge = 2
             then Inl CurrentMemberPartOfDispute
             else Inl (CouldNotDecryptShares (CannotDecryptShareS AuthFailed)))
       \<and> ResolvePublicKeySharePointsAccusationsMessages_body judge (senderID accusation12_wrong_key) (2, PrivKey 13) [] =
            (if ID judge = senderID accusation12_wrong_key \<or> ID judge = 2
             then Inl CurrentMemberPartOfDispute
             else Inl (CouldNotDecryptShareS (CannotDecryptShareS AuthFailed)))"
    using mismatched_revealed_key_aborts_resolution
      [of judge accusation12_wrong_key "[accusation12_wrong_key]" 2 13
        ephemeralMessage1 12 ephemeralMessage2 21 sharesMessage2 0 0 "[]"]
    by (simp add: scenario_defs ephemeralPublicKeyMessage_def peerSharesMessage_def)
  then show ?thesis
    by (simp add: ResolveSecretSharesAccusationsMessages_def
        ResolvePublicKeySharePointsAccusationsMessages_def scenario_defs)
qed

section \<open>The combined share and the group public key (C6)\<close>

text \<open>
  C6, as stated, fails: the two values are not the stated ones in every member state. With
  no received share \<open>CombineMemberShares\<close> stores \<open>selfSecretShareS\<close> as it is: the own share
  5 under \<open>Q = 3\<close> gives the master private key share 5, where the sum modulo \<open>Q\<close> is 2. And
  a state that Phase 8 itself produces has no group public key: a points message with no
  points passes the check against the share 0, since \<open>G^0\<close> is the empty product, Phase 8
  records the empty list for its sender, and \<open>CombineGroupPublicKey\<close> panics on the first
  element of that list.
\<close>

theorem combined_keys_not_for_every_state:
  "CombineMemberShares member3_unreduced =
     Inr (member3_unreduced\<lparr>masterPrivateKeyShare := Some 5, member_shareT := Some 0\<rparr>)
   \<and> (5 + sum_list (map snd (receivedValidSharesS member3_unreduced)))
        mod dkg_Q (protocolConfig member3_unreduced) = 2
   \<and> VerifyPublicKeySharePoints member3_phase8_points [pointsMessage1_empty] =
       Inr (member3_phase8_points\<lparr>receivedValidPeerPublicKeySharePoints := [(1, [])]\<rparr>,
            \<lparr>senderID = 3, accusedMembersKeys = []\<rparr>)
   \<and> CombineGroupPublicKey (member3_phase8_points\<lparr>receivedValidPeerPublicKeySharePoints := [(1, [])]\<rparr>) =
       Inl Panic"
  by (simp add: CombineMemberShares_def member3_unreduced_def member3_def cfg7_def vss7_def
      VerifyPublicKeySharePoints_def VerifyPublicKeySharePoints_body_def
      isShareValidAgainstPublicKeySharePoints_def Int_Exp_def
      member3_phase8_points_def member3_phase8_def pointsMessage1_empty_def
      CombineGroupPublicKey_def individualPublicKey_def receivedValidPeerIndividualPublicKeys_def)

text \<open>
  C6, amended. For every member state and every other order of the entries of
  \<open>receivedValidSharesS\<close>, \<open>receivedValidSharesT\<close>, \<open>receivedValidPeerPublicKeySharePoints\<close> and
  \<open>reconstructedIndividualPublicKeys\<close>, \<open>CombineMemberShares\<close> ends the same way, with the same
  master private key share or with a panic in both orders, and so does
  \<open>CombineGroupPublicKey\<close> with the group public key. When both own shares are set, \<open>Q\<close> is
  positive, and a share was received or \<open>selfSecretShareS\<close> is in \<open>[0, Q)\<close>, then
  \<open>CombineMemberShares\<close> returns and the master private key share is \<open>selfSecretShareS\<close>
  plus the sum of the values of \<open>receivedValidSharesS\<close>, modulo \<open>Q\<close>. When the member has
  public key share points, the first of them \<open>y\<close>, every list of points recorded for a peer
  is not empty, \<open>P\<close> is positive, and a peer or reconstructed key is multiplied or \<open>y\<close> is in
  \<open>[0, P)\<close>, then \<open>CombineGroupPublicKey\<close> returns and the group public key is the product
  modulo \<open>P\<close> of \<open>y\<close>, the first points \<open>A_j[0]\<close> of the peers and the reconstructed
  individual public keys. When a list of points recorded for a peer is empty,
  \<open>CombineGroupPublicKey\<close> panics.
\<close>

theorem combined_keys_independent_of_order:
  assumes "mset sharesS' = mset (receivedValidSharesS m)"
    and "mset sharesT' = mset (receivedValidSharesT m)"
    and "mset peerPoints' = mset (receivedValidPeerPublicKeySharePoints m)"
    and "mset reconstructed' = mset (reconstructedIndividualPublicKeys m)"
  shows "map_sum id masterPrivateKeyShare
           (CombineMemberShares (m\<lparr>receivedValidSharesS := sharesS', receivedValidSharesT := sharesT'\<rparr>)) =
         map_sum id masterPrivateKeyShare (CombineMemberShares m)
       \<and> map_sum id groupPublicKey
           (CombineGroupPublicKey (m\<lparr>receivedValidPeerPublicKeySharePoints := peerPoints',
                                      reconstructedIndividualPublicKeys := reconstructed'\<rparr>)) =
         map_sum id groupPublicKey (CombineGroupPublicKey m)
       \<and> (selfSecretShareS m = Some s \<and> selfSecretShareT m = Some t \<and> 0 < dkg_Q (protocolConfig m)
            \<and> (receivedValidSharesS m = [] \<longrightarrow> 0 \<le> s \<and> s < dkg_Q (protocolConfig m)) \<longrightarrow>
          (\<exists>m1. CombineMemberShares m = Inr m1
             \<and> masterPrivateKeyShare m1 =
                 Some ((s + sum_list (map snd (receivedValidSharesS m))) mod dkg_Q (protocolConfig m))))
       \<and> (publicKeySharePoints m = y # points
            \<and> (\<forall>e\<in>set (receivedValidPeerPublicKeySharePoints m). snd e \<noteq> [])
            \<and> 0 < dkg_P (protocolConfig m)
            \<and> (receivedValidPeerPublicKeySharePoints m = [] \<and> reconstructedIndividualPublicKeys m = [] \<longrightarrow>
                 0 \<le> y \<and> y < dkg_P (protocolConfig m)) \<longrightarrow>
          (\<exists>m1. CombineGroupPublicKey m = Inr m1
             \<and> groupPublicKey m1 =
                 Some ((y * prod_list (map (\<lambda>e. hd (snd e)) (receivedValidPeerPublicKeySharePoints m))
                          * prod_list (map snd (reconstructedIndividualPublicKeys m)))
                       mod dkg_P (protocolConfig m))))
       \<and> ((\<exists>e\<in>set (receivedValidPeerPublicKeySharePoints m). snd e = []) \<longrightarrow>
            CombineGroupPublicKey m = Inl Panic)"
proof (intro conjI impI)
  show "map_sum id masterPrivateKeyShare
           (CombineMemberShares (m\<lparr>receivedValidSharesS := sharesS', receivedValidSharesT := sharesT'\<rparr>)) =
         map_sum id masterPrivateKeyShare (CombineMemberShares m)"
    using assms(1,2) by (rule CombineMemberShares_permutation)
next
  show "map_sum id groupPublicKey
           (CombineGroupPublicKey (m\<lparr>receivedValidPeerPublicKeySharePoints := peerPoints',
                                      reconstructedIndividualPublicKeys := reconstructed'\<rparr>)) =
         map_sum id groupPublicKey (CombineGroupPublicKey m)"
    using assms(3,4) by (rule CombineGroupPublicKey_permutation)
next
  assume a: "selfSecretShareS m = Some s \<and> selfSecretShareT m = Some t \<and> 0 < dkg_Q (protocolConfig m)
            \<and> (receivedValidSharesS m = [] \<longrightarrow> 0 \<le> s \<and> s < dkg_Q (protocolConfig m))"
  then have "CombineMemberShares m =
     Inr (m\<lparr>masterPrivateKeyShare :=
               Some (if receivedValidSharesS m = [] then s
                     else (s + sum_list (map snd (receivedValidSharesS m))) mod \<bar>dkg_Q (protocolConfig m)\<bar>),
             member_shareT :=
               Some (if receivedValidSharesT m = [] then t
                     else (t + sum_list (map snd (receivedValidSharesT m))) mod \<bar>dkg_Q (protocolConfig m)\<bar>)\<rparr>)"
    by (intro CombineMemberShares_eq) simp_all
  with a show "\<exists>m1. CombineMemberShares m = Inr m1
             \<and> masterPrivateKeyShare m1 =
                 Some ((s + sum_list (map snd (receivedValidSharesS m))) mod dkg_Q (protocolConfig m))"
    by simp
next
  assume a: "publicKeySharePoints m = y # points
            \<and> (\<forall>e\<in>set (receivedValidPeerPublicKeySharePoints m). snd e \<noteq> [])
            \<and> 0 < dkg_P (protocolConfig m)
            \<and> (receivedValidPeerPublicKeySharePoints m = [] \<and> reconstructedIndividualPublicKeys m = [] \<longrightarrow>
                 0 \<le> y \<and> y < dkg_P (protocolConfig m))"
  then have "CombineGroupPublicKey m = Inr (m\<lparr>groupPublicKey :=
       Some (if receivedValidPeerPublicKeySharePoints m = [] \<and> reconstructedIndividualPublicKeys m = []
             then y
             else (y * prod_list (map (\<lambda>e. hd (snd e)) (receivedValidPeerPublicKeySharePoints m))
                     * prod_list (map snd (reconstructedIndividualPublicKeys m)))
                  mod \<bar>dkg_P (protocolConfig m)\<bar>)\<rparr>)"
    by (intro CombineGroupPublicKey_eq) simp_all
  with a show "\<exists>m1. CombineGroupPublicKey m = Inr m1
             \<and> groupPublicKey m1 =
                 Some ((y * prod_list (map (\<lambda>e. hd (snd e)) (receivedValidPeerPublicKeySharePoints m))
                          * prod_list (map snd (reconstructedIndividualPublicKeys m)))
                       mod dkg_P (protocolConfig m))"
    by simp
next
  assume "\<exists>e\<in>set (receivedValidPeerPublicKeySharePoints m). snd e = []"
  then show "CombineGroupPublicKey m = Inl Panic"
    by (simp add: CombineGroupPublicKey_result)
qed

theorem combined_keys_independent_of_order_witness:
  "map_sum id masterPrivateKeyShare (CombineMemberShares member3_phase12) = Inr (Some 1)
   \<and> map_sum id masterPrivateKeyShare
       (CombineMemberShares (member3_phase12\<lparr>receivedValidSharesS := [(2, 1), (1, 2)],
                                              receivedValidSharesT := [(2, 2), (1, 0)]\<rparr>)) = Inr (Some 1)
   \<and> map_sum id groupPublicKey (CombineGroupPublicKey member3_phase12) = Inr (Some 1)
   \<and> map_sum id groupPublicKey
       (CombineGroupPublicKey (member3_phase12\<lparr>
          receivedValidPeerPublicKeySharePoints := [(2, [2, 4]), (1, [4, 1])],
          reconstructedIndividualPublicKeys := [(4, 4)]\<rparr>)) = Inr (Some 1)
   \<and> CombineGroupPublicKey (member3_phase12\<lparr>receivedValidPeerPublicKeySharePoints := [(1, [4, 1]), (2, [])]\<rparr>) =
       Inl Panic"
proof -
  have h: "mset [(2, 1), (1, 2)] = mset (receivedValidSharesS member3_phase12)"
    "mset [(2, 2), (1, 0)] = mset (receivedValidSharesT member3_phase12)"
    "mset [(2, [2, 4]), (1, [4, 1])] = mset (receivedValidPeerPublicKeySharePoints member3_phase12)"
    "mset [(4, 4)] = mset (reconstructedIndividualPublicKeys member3_phase12)"
    by (simp_all add: member3_phase12_def member3_def)
  have a1: "selfSecretShareS member3_phase12 = Some 1 \<and> selfSecretShareT member3_phase12 = Some 2
      \<and> 0 < dkg_Q (protocolConfig member3_phase12)
      \<and> (receivedValidSharesS member3_phase12 = [] \<longrightarrow> (0::int) \<le> 1 \<and> 1 < dkg_Q (protocolConfig member3_phase12))"
    by (simp add: member3_phase12_def member3_def cfg7_def)
  have a2: "publicKeySharePoints member3_phase12 = 2 # [4]
      \<and> (\<forall>e\<in>set (receivedValidPeerPublicKeySharePoints member3_phase12). snd e \<noteq> [])
      \<and> 0 < dkg_P (protocolConfig member3_phase12)
      \<and> (receivedValidPeerPublicKeySharePoints member3_phase12 = []
           \<and> reconstructedIndividualPublicKeys member3_phase12 = [] \<longrightarrow>
             (0::int) \<le> 2 \<and> 2 < dkg_P (protocolConfig member3_phase12))"
    by (simp add: member3_phase12_def member3_def cfg7_def)
  have v: "(1 + sum_list (map snd (receivedValidSharesS member3_phase12))) mod dkg_Q (protocolConfig member3_phase12) = 1"
    "(2 * prod_list (map (\<lambda>e. hd (snd e)) (receivedValidPeerPublicKeySharePoints member3_phase12))
        * prod_list (map snd (reconstructedIndividualPublicKeys member3_phase12)))
      mod dkg_P (protocolConfig member3_phase12) = 1"
    by (simp_all add: member3_phase12_def member3_def cfg7_def)
  let ?bad = "member3_phase12\<lparr>receivedValidPeerPublicKeySharePoints := [(1, [4, 1]), (2, [])]\<rparr>"
  have a3: "\<exists>e\<in>set (receivedValidPeerPublicKeySharePoints ?bad). snd e = []"
    by simp
  from combined_keys_independent_of_order [OF h, of 1 2 2 "[4]"] a1 a2
  have "map_sum id masterPrivateKeyShare
           (CombineMemberShares (member3_phase12\<lparr>receivedValidSharesS := [(2, 1), (1, 2)],
              receivedValidSharesT := [(2, 2), (1, 0)]\<rparr>)) =
         map_sum id masterPrivateKeyShare (CombineMemberShares member3_phase12)"
    and "map_sum id groupPublicKey
           (CombineGroupPublicKey (member3_phase12\<lparr>
              receivedValidPeerPublicKeySharePoints := [(2, [2, 4]), (1, [4, 1])],
              reconstructedIndividualPublicKeys := [(4, 4)]\<rparr>)) =
         map_sum id groupPublicKey (CombineGroupPublicKey member3_phase12)"
    and "\<exists>m1. CombineMemberShares member3_phase12 = Inr m1 \<and> masterPrivateKeyShare m1 = Some 1"
    and "\<exists>m1. CombineGroupPublicKey member3_phase12 = Inr m1 \<and> groupPublicKey m1 = Some 1"
    unfolding v by blast+
  moreover from combined_keys_independent_of_order
    [of "receivedValidSharesS ?bad" ?bad "receivedValidSharesT ?bad"
        "receivedValidPeerPublicKeySharePoints ?bad" "reconstructedIndividualPublicKeys ?bad"] a3
  have "CombineGroupPublicKey ?bad = Inl Panic"
    by blast
  ultimately show ?thesis
    by auto
qed

section \<open>A judge who is a party of the dispute (C7)\<close>

text \<open>
  C7. If \<open>P\<close> is not zero and the list of accusation messages holds an accusation in which
  the current member is the accuser or the accused, then
  \<open>ResolveSecretSharesAccusationsMessages\<close> and
  \<open>ResolvePublicKeySharePointsAccusationsMessages\<close> both return an error (not a panic) and
  no list of disqualified members, and the state of the member after the call is the state
  before it.
\<close>

theorem judge_in_dispute_is_error:
  assumes "dkg_P (protocolConfig member) \<noteq> 0"
    and "message \<in> set messages"
    and "(accusedID, revealedKey) \<in> set (accusedMembersKeys message)"
    and "ID member = senderID message \<or> ID member = accusedID"
  shows "(\<exists>err. err \<noteq> Panic \<and>
            ResolveSecretSharesAccusationsMessages member messages = (member, Inl err))
       \<and> (\<exists>err. err \<noteq> Panic \<and>
            ResolvePublicKeySharePointsAccusationsMessages member messages = (member, Inl err))"
proof -
  have "\<forall>dq. \<exists>err. ResolveSecretSharesAccusationsMessages_body member (senderID message)
      (accusedID, revealedKey) dq = Inl err"
    using assms(4) by (auto simp: ResolveSecretSharesAccusationsMessages_body_def)
  from ResolveSecretShares_loop_fails [OF assms(2,3) this, of "[]"]
    ResolveSecretShares_loop_no_panic [OF assms(1), of messages "[]"]
  have five: "\<exists>err. err \<noteq> Panic \<and>
      ResolveSecretSharesAccusationsMessages member messages = (member, Inl err)"
    by (auto simp: ResolveSecretSharesAccusationsMessages_def)
  have "\<forall>dq. \<exists>err. ResolvePublicKeySharePointsAccusationsMessages_body member (senderID message)
      (accusedID, revealedKey) dq = Inl err"
    using assms(4) by (auto simp: ResolvePublicKeySharePointsAccusationsMessages_body_def)
  from ResolvePublicKeySharePoints_loop_fails [OF assms(2,3) this, of "[]"]
    ResolvePublicKeySharePoints_loop_no_panic [OF assms(1), of messages "[]"]
  have "\<exists>err. err \<noteq> Panic \<and>
      ResolvePublicKeySharePointsAccusationsMessages member messages = (member, Inl err)"
    by (auto simp: ResolvePublicKeySharePointsAccusationsMessages_def)
  with five show ?thesis by simp
qed

theorem judge_in_dispute_is_error_witness:
  "ResolveSecretSharesAccusationsMessages judge [accusation12, accusation13] =
     (judge, Inl CurrentMemberPartOfDispute)
   \<and> ResolvePublicKeySharePointsAccusationsMessages judge [accusation12, accusation13] =
     (judge, Inl CurrentMemberPartOfDispute)"
proof -
  have "dkg_P (protocolConfig judge) \<noteq> 0"
    by (simp add: scenario_defs)
  moreover have "accusation13 \<in> set [accusation12, accusation13]"
    by simp
  moreover have "(3, PrivKey 13) \<in> set (accusedMembersKeys accusation13)"
    by (simp add: accusation13_def)
  moreover have "ID judge = senderID accusation13 \<or> ID judge = 3"
    by (simp add: scenario_defs)
  ultimately have "(\<exists>err. err \<noteq> Panic \<and>
            ResolveSecretSharesAccusationsMessages judge [accusation12, accusation13] = (judge, Inl err))
       \<and> (\<exists>err. err \<noteq> Panic \<and>
            ResolvePublicKeySharePointsAccusationsMessages judge [accusation12, accusation13] = (judge, Inl err))"
    by (rule judge_in_dispute_is_error)
  moreover have "snd (ResolveSecretSharesAccusationsMessages judge [accusation12, accusation13]) =
      Inl CurrentMemberPartOfDispute"
    by (simp add: resolve_defs scenario_defs)
  moreover have "snd (ResolvePublicKeySharePointsAccusationsMessages judge [accusation12, accusation13]) =
      Inl CurrentMemberPartOfDispute"
    by (simp add: resolve_defs scenario_defs)
  ultimately show ?thesis by auto
qed

section \<open>Unpaired shares and commitments messages (C8)\<close>

text \<open>
  C8, as stated, fails: a shares message whose sender sent no commitments message is never
  looked at. With one such shares message and no commitments message the function returns
  an accusations message that accuses nobody, and no error.
\<close>

theorem unpaired_shares_message_is_dropped:
  "VerifyReceivedSharesAndCommitmentsMessages member3 [sharesMessage2] [] =
     Inr (member3, \<lparr>senderID = 3, accusedMembersKeys = []\<rparr>)"
  by (simp add: VerifyReceivedSharesAndCommitmentsMessages_def member3_def)

text \<open>
  C8, amended. If a commitments message \<open>c\<close> has no shares message of the same sender, then
  \<open>VerifyReceivedSharesAndCommitmentsMessages\<close> returns no accusations message on any list of
  commitments messages that holds \<open>c\<close>: it stops at \<open>c\<close> or before. It stops with an error,
  and not with a panic, when \<open>P\<close> is not zero and the member holds an ephemeral key pair for
  every peer with which it has a symmetric key, as Phase 2 leaves it. When the commitments
  messages before \<open>c\<close> are verified without an error, the error is
  \<open>cannot find shares message\<close> for the sender of \<open>c\<close>. A shares message \<open>s\<close> with no
  commitments message of the same sender is ignored: with it and without it the function
  returns the same.
\<close>

theorem commitments_without_shares_message_is_error:
  "((\<forall>s\<in>set sharesMessages. senderID s \<noteq> senderID c) \<and> c \<in> set commitmentsMessages \<longrightarrow>
      (\<exists>err. VerifyReceivedSharesAndCommitmentsMessages cvm sharesMessages commitmentsMessages = Inl err
         \<and> (dkg_P (protocolConfig cvm) \<noteq> 0
              \<and> (\<forall>k. symmetricKeys cvm k \<noteq> None \<longrightarrow> ephemeralKeyPairs cvm k \<noteq> None) \<longrightarrow>
            err \<noteq> Panic)))
   \<and> ((\<forall>s\<in>set sharesMessages. senderID s \<noteq> senderID c)
        \<and> VerifyReceivedSharesAndCommitmentsMessages_loop cvm sharesMessages pre [] = Inr (cvm', accused) \<longrightarrow>
      VerifyReceivedSharesAndCommitmentsMessages cvm sharesMessages (pre @ c # post) =
        Inl (CannotFindSharesMessage (senderID c)))
   \<and> ((\<forall>c'\<in>set paired. senderID c' \<noteq> senderID s) \<longrightarrow>
      VerifyReceivedSharesAndCommitmentsMessages cvm (before @ s # after) paired =
        VerifyReceivedSharesAndCommitmentsMessages cvm (before @ after) paired)"
proof (intro conjI impI)
  assume a: "(\<forall>s\<in>set sharesMessages. senderID s \<noteq> senderID c) \<and> c \<in> set commitmentsMessages"
  then have "c \<in> set commitmentsMessages" and "\<forall>s\<in>set sharesMessages. senderID s \<noteq> senderID c"
    by simp_all
  from VerifyReceived_loop_unmatched [OF this, of cvm "[]"] obtain err where
    err: "VerifyReceivedSharesAndCommitmentsMessages_loop cvm sharesMessages commitmentsMessages [] = Inl err"
    by blast
  have "dkg_P (protocolConfig cvm) \<noteq> 0
      \<and> (\<forall>k. symmetricKeys cvm k \<noteq> None \<longrightarrow> ephemeralKeyPairs cvm k \<noteq> None) \<longrightarrow> err \<noteq> Panic"
  proof
    assume "dkg_P (protocolConfig cvm) \<noteq> 0
      \<and> (\<forall>k. symmetricKeys cvm k \<noteq> None \<longrightarrow> ephemeralKeyPairs cvm k \<noteq> None)"
    then have "dkg_P (protocolConfig cvm) \<noteq> 0"
      and "\<forall>k. symmetricKeys cvm k \<noteq> None \<longrightarrow> ephemeralKeyPairs cvm k \<noteq> None"
      by simp_all
    from VerifyReceived_loop_no_panic [OF this, of sharesMessages commitmentsMessages "[]"] err
    show "err \<noteq> Panic" by auto
  qed
  with err show "\<exists>err. VerifyReceivedSharesAndCommitmentsMessages cvm sharesMessages commitmentsMessages = Inl err
         \<and> (dkg_P (protocolConfig cvm) \<noteq> 0
              \<and> (\<forall>k. symmetricKeys cvm k \<noteq> None \<longrightarrow> ephemeralKeyPairs cvm k \<noteq> None) \<longrightarrow>
            err \<noteq> Panic)"
    by (simp add: VerifyReceivedSharesAndCommitmentsMessages_def)
next
  assume "(\<forall>s\<in>set sharesMessages. senderID s \<noteq> senderID c)
        \<and> VerifyReceivedSharesAndCommitmentsMessages_loop cvm sharesMessages pre [] = Inr (cvm', accused)"
  then have unmatched: "\<forall>s\<in>set sharesMessages. senderID s \<noteq> senderID c"
    and pre: "VerifyReceivedSharesAndCommitmentsMessages_loop cvm sharesMessages pre [] = Inr (cvm', accused)"
    by simp_all
  from pre show "VerifyReceivedSharesAndCommitmentsMessages cvm sharesMessages (pre @ c # post) =
      Inl (CannotFindSharesMessage (senderID c))"
    by (simp add: VerifyReceivedSharesAndCommitmentsMessages_def VerifyReceived_loop_append
        body_unmatched [OF unmatched])
next
  assume "\<forall>c'\<in>set paired. senderID c' \<noteq> senderID s"
  then show "VerifyReceivedSharesAndCommitmentsMessages cvm (before @ s # after) paired =
        VerifyReceivedSharesAndCommitmentsMessages cvm (before @ after) paired"
    by (simp add: VerifyReceivedSharesAndCommitmentsMessages_def loop_ignores_unpaired)
qed

theorem commitments_without_shares_message_is_error_witness:
  "VerifyReceivedSharesAndCommitmentsMessages member3_phase4 [sharesMessage1, sharesMessage2]
       [commitmentsMessage2, commitmentsMessage4] = Inl (CannotFindSharesMessage 4)
   \<and> VerifyReceivedSharesAndCommitmentsMessages member3_phase4 [sharesMessage1, sharesMessage2]
       [commitmentsMessage2] =
     VerifyReceivedSharesAndCommitmentsMessages member3_phase4 [sharesMessage2] [commitmentsMessage2]
   \<and> VerifyReceivedSharesAndCommitmentsMessages member3_phase4 [sharesMessage2] [commitmentsMessage2] =
       Inr (member3_phase4\<lparr>receivedValidSharesS := [(2, 1)], receivedValidSharesT := [(2, 2)],
              receivedValidPeerCommitments := [2 \<mapsto> [4, 2]]\<rparr>,
            \<lparr>senderID = 3, accusedMembersKeys = []\<rparr>)"
proof -
  let ?verified = "member3_phase4\<lparr>receivedValidSharesS := [(2, 1)], receivedValidSharesT := [(2, 2)],
              receivedValidPeerCommitments := [2 \<mapsto> [4, 2]]\<rparr>"
  have pre: "VerifyReceivedSharesAndCommitmentsMessages_loop member3_phase4 [sharesMessage1, sharesMessage2]
      [commitmentsMessage2] [] = Inr (?verified, [])"
    by (simp add: VerifyReceivedSharesAndCommitmentsMessages_body_def
        decryptShareS_def decryptShareT_def areSharesValidAgainstCommitments_def
        CalculateCommitment_def Int_Mod_def Int_Exp_def pow_def
        member3_phase4_def member3_def cfg7_def vss7_def
        sharesMessage1_def sharesMessage2_def commitmentsMessage2_def)
  have h1: "(\<forall>s\<in>set [sharesMessage1, sharesMessage2]. senderID s \<noteq> senderID commitmentsMessage4)
      \<and> commitmentsMessage4 \<in> set [commitmentsMessage2, commitmentsMessage4]"
    by (simp add: sharesMessage1_def sharesMessage2_def commitmentsMessage4_def)
  have h2: "dkg_P (protocolConfig member3_phase4) \<noteq> 0
      \<and> (\<forall>k. symmetricKeys member3_phase4 k \<noteq> None \<longrightarrow> ephemeralKeyPairs member3_phase4 k \<noteq> None)"
    by (simp add: member3_phase4_def member3_def cfg7_def)
  have h3: "(\<forall>s\<in>set [sharesMessage1, sharesMessage2]. senderID s \<noteq> senderID commitmentsMessage4)
      \<and> VerifyReceivedSharesAndCommitmentsMessages_loop member3_phase4 [sharesMessage1, sharesMessage2]
          [commitmentsMessage2] [] = Inr (?verified, [])"
    using h1 pre by simp
  have h4: "\<forall>c'\<in>set [commitmentsMessage2]. senderID c' \<noteq> senderID sharesMessage1"
    by (simp add: commitmentsMessage2_def sharesMessage1_def)
  from commitments_without_shares_message_is_error
    [of "[sharesMessage1, sharesMessage2]" commitmentsMessage4 "[commitmentsMessage2, commitmentsMessage4]"
        member3_phase4 "[commitmentsMessage2]" ?verified "[]" "[]" "[commitmentsMessage2]"
        sharesMessage1 "[]" "[sharesMessage2]"]
    h1 h2 h3 h4
  have "\<exists>err. VerifyReceivedSharesAndCommitmentsMessages member3_phase4 [sharesMessage1, sharesMessage2]
          [commitmentsMessage2, commitmentsMessage4] = Inl err \<and> err \<noteq> Panic"
    and "VerifyReceivedSharesAndCommitmentsMessages member3_phase4 [sharesMessage1, sharesMessage2]
          ([commitmentsMessage2] @ commitmentsMessage4 # []) =
        Inl (CannotFindSharesMessage (senderID commitmentsMessage4))"
    and "VerifyReceivedSharesAndCommitmentsMessages member3_phase4 ([] @ sharesMessage1 # [sharesMessage2])
          [commitmentsMessage2] =
        VerifyReceivedSharesAndCommitmentsMessages member3_phase4 ([] @ [sharesMessage2]) [commitmentsMessage2]"
    by blast+
  moreover have "VerifyReceivedSharesAndCommitmentsMessages member3_phase4 [sharesMessage2] [commitmentsMessage2] =
       Inr (?verified, \<lparr>senderID = 3, accusedMembersKeys = []\<rparr>)"
    by (simp add: VerifyReceivedSharesAndCommitmentsMessages_def
        VerifyReceivedSharesAndCommitmentsMessages_body_def
        decryptShareS_def decryptShareT_def areSharesValidAgainstCommitments_def
        CalculateCommitment_def Int_Mod_def Int_Exp_def pow_def
        member3_phase4_def member3_def cfg7_def vss7_def
        sharesMessage2_def commitmentsMessage2_def)
  ultimately show ?thesis
    by (simp add: commitmentsMessage4_def)
qed

section \<open>The state after a missing key pair (C9)\<close>

text \<open>
  C9. If \<open>GenerateSymmetricKeys\<close> returns the error of a missing ephemeral key pair for a
  sender \<open>j\<close>, then the evidence log holds a Phase 1 message of \<open>j\<close> afterwards, since the
  message is stored before the key pair is looked up. More precisely the input splits at
  the failing message \<open>msg\<close> of \<open>j\<close>: the messages before it were processed without an error,
  the state after the call is the state after them with \<open>msg\<close> put into the evidence log,
  the symmetric keys derived for them are all still stored, and the message recorded for
  \<open>j\<close> is \<open>msg\<close> itself when the log held none for \<open>j\<close> before the call (the first message
  recorded for a sender wins). The call is not atomic: the state it leaves differs from the
  state it found.
\<close>

theorem missing_key_pair_leaves_partial_state:
  assumes "GenerateSymmetricKeys sm messages = (sm', Some (EphemeralKeyPairDoesNotExist j))"
  shows "ephemeralPublicKeyMessage (evidenceLog sm') j \<noteq> None
       \<and> (\<exists>pre msg post smp.
             messages = pre @ msg # post \<and> senderID msg = j
             \<and> ephemeralKeyPairs sm j = None
             \<and> GenerateSymmetricKeys sm pre = (smp, None)
             \<and> sm' = smp\<lparr>evidenceLog := PutEphemeralMessage (evidenceLog smp) msg\<rparr>
             \<and> symmetricKeys sm' = symmetricKeys smp
             \<and> (\<forall>m\<in>set pre. symmetricKeys sm' (senderID m) \<noteq> None)
             \<and> (ephemeralPublicKeyMessage (evidenceLog sm) j = None \<longrightarrow>
                  ephemeralPublicKeyMessage (evidenceLog sm') j = Some msg))"
proof -
  from GenerateSymmetricKeys_failure [OF assms] obtain pre msg post smp where
    split: "messages = pre @ msg # post"
    and pre: "GenerateSymmetricKeys sm pre = (smp, None)"
    and body: "GenerateSymmetricKeys_body smp msg = (sm', Some (EphemeralKeyPairDoesNotExist j))"
    by blast
  from GenerateSymmetricKeys_body_missing [OF body] have
    j: "j = senderID msg" and none: "ephemeralKeyPairs smp j = None"
    and sm': "sm' = smp\<lparr>evidenceLog := PutEphemeralMessage (evidenceLog smp) msg\<rparr>"
    by blast+
  note ok = GenerateSymmetricKeys_success [OF pre]
  from ok none have none0: "ephemeralKeyPairs sm j = None" by simp
  with ok have notin: "j \<notin> senderID ` set pre" by auto
  have recorded: "ephemeralPublicKeyMessage (evidenceLog sm') j \<noteq> None"
    by (simp add: sm' j ephemeralPublicKeyMessage_def PutEphemeralMessage_recorded)
  have first: "ephemeralPublicKeyMessage (evidenceLog sm) j = None \<longrightarrow>
      ephemeralPublicKeyMessage (evidenceLog sm') j = Some msg"
  proof
    assume "ephemeralPublicKeyMessage (evidenceLog sm) j = None"
    with ok notin have "pubKeyMessageLog (evidenceLog smp) (senderID msg) = None"
      by (simp add: ephemeralPublicKeyMessage_def j)
    then show "ephemeralPublicKeyMessage (evidenceLog sm') j = Some msg"
      by (simp add: sm' j ephemeralPublicKeyMessage_def PutEphemeralMessage_first)
  qed
  have keys: "symmetricKeys sm' = symmetricKeys smp"
    by (simp add: sm')
  have stored: "\<forall>m\<in>set pre. symmetricKeys sm' (senderID m) \<noteq> None"
    using ok keys by simp
  let ?Q = "\<lambda>pre msg post smp. messages = pre @ msg # post \<and> senderID msg = j
             \<and> ephemeralKeyPairs sm j = None
             \<and> GenerateSymmetricKeys sm pre = (smp, None)
             \<and> sm' = smp\<lparr>evidenceLog := PutEphemeralMessage (evidenceLog smp) msg\<rparr>
             \<and> symmetricKeys sm' = symmetricKeys smp
             \<and> (\<forall>m\<in>set pre. symmetricKeys sm' (senderID m) \<noteq> None)
             \<and> (ephemeralPublicKeyMessage (evidenceLog sm) j = None \<longrightarrow>
                  ephemeralPublicKeyMessage (evidenceLog sm') j = Some msg)"
  have "?Q pre msg post smp"
    using split j [symmetric] none0 pre sm' keys stored first by (intro conjI)
  then have "\<exists>smp. ?Q pre msg post smp" ..
  then have "\<exists>post smp. ?Q pre msg post smp" ..
  then have "\<exists>msg post smp. ?Q pre msg post smp" ..
  then have "\<exists>pre msg post smp. ?Q pre msg post smp" ..
  with recorded show ?thesis by (intro conjI)
qed

theorem missing_key_pair_leaves_partial_state_witness:
  "GenerateSymmetricKeys member3_phase2 [ephemeralMessage1, ephemeralMessage2] =
     (member3_phase2\<lparr>evidenceLog := PutEphemeralMessage (PutEphemeralMessage emptyLog ephemeralMessage1) ephemeralMessage2,
                     symmetricKeys := [1 \<mapsto> SymKey 13 31]\<rparr>,
      Some (EphemeralKeyPairDoesNotExist 2))
   \<and> ephemeralPublicKeyMessage
        (PutEphemeralMessage (PutEphemeralMessage emptyLog ephemeralMessage1) ephemeralMessage2) 2 \<noteq> None"
proof -
  have run: "GenerateSymmetricKeys member3_phase2 [ephemeralMessage1, ephemeralMessage2] =
     (member3_phase2\<lparr>evidenceLog := PutEphemeralMessage (PutEphemeralMessage emptyLog ephemeralMessage1) ephemeralMessage2,
                     symmetricKeys := [1 \<mapsto> SymKey 13 31]\<rparr>,
      Some (EphemeralKeyPairDoesNotExist 2))"
    by (simp add: GenerateSymmetricKeys_body_def member3_phase2_def member3_def keyPair31_def
        ephemeralMessage1_def ephemeralMessage2_def)
  from missing_key_pair_leaves_partial_state [OF run] run show ?thesis
    by simp
qed

section \<open>Verification of the public key share points (C10)\<close>

text \<open>
  C10, as stated, fails: a sender is not always handled exactly one way. Member 3 holds the
  share 1 from member 2, and member 2 has two messages in the input: the first, with the
  points \<open>[3]\<close>, fails the check, the second, with the points \<open>[2, 4]\<close>, passes it. The call
  accuses member 2 and records the points of its second message as well.
\<close>

theorem sender_with_two_messages_is_accused_and_recorded:
  "VerifyPublicKeySharePoints member3_phase8 [pointsMessage2_bad, pointsMessage2] =
     Inr (member3_phase8\<lparr>receivedValidPeerPublicKeySharePoints := [(2, [2, 4])]\<rparr>,
          \<lparr>senderID = 3, accusedMembersKeys = [(2, PrivKey 32)]\<rparr>)
   \<and> map_of (receivedValidSharesS member3_phase8) 2 = Some 1"
  by (simp add: VerifyPublicKeySharePoints_def VerifyPublicKeySharePoints_body_def
        isShareValidAgainstPublicKeySharePoints_def Int_Mod_def Int_Exp_def pow_def
        member3_phase8_def member3_def cfg7_def vss7_def pointsMessage2_bad_def pointsMessage2_def
        keyPair31_def keyPair32_def)

text \<open>
  C10, amended. Let \<open>P\<close> be not zero, let \<open>receivedValidSharesS\<close> hold a share for the sender
  of every message, and let the member hold an ephemeral key pair for every peer whose
  share it holds (Phase 4 accepts a share only over a symmetric key, and Phase 2 derives a
  symmetric key only from a key pair). Then \<open>VerifyPublicKeySharePoints\<close> returns an
  accusations message and does not panic; for every message
  \<open>isShareValidAgainstPublicKeySharePoints\<close> is called with a share that is not nil and
  returns a boolean. Every message is handled one way: a sender is accused, with the
  private key of its key pair, exactly when the check fails on one of its messages, and the
  points recorded for a sender are those of its last message that passed, or what was
  recorded before the call when none passed. Every sender ends up accused or with its
  points recorded; and when no two messages have the same sender, every sender is handled
  exactly one way: a sender whose check succeeds has its points recorded and is not
  accused, and a sender whose check fails is accused and the points recorded for it are
  left as they were.
\<close>

theorem points_verification_handles_every_sender:
  assumes "dkg_P (protocolConfig sm) \<noteq> 0"
    and "\<forall>m\<in>set messages. map_of (receivedValidSharesS sm) (senderID m) \<noteq> None"
    and "\<forall>k. map_of (receivedValidSharesS sm) k \<noteq> None \<longrightarrow> ephemeralKeyPairs sm k \<noteq> None"
  shows "\<exists>sm' accused.
      VerifyPublicKeySharePoints sm messages =
        Inr (sm', \<lparr>senderID = ID sm, accusedMembersKeys = accused\<rparr>)
    \<and> (\<forall>m\<in>set messages. \<exists>s valid.
          map_of (receivedValidSharesS sm) (senderID m) = Some s
          \<and> isShareValidAgainstPublicKeySharePoints (protocolConfig sm) (vss sm) (ID sm) (Some s)
               (message_publicKeySharePoints m) = Some valid)
    \<and> (\<forall>k. map_of accused k =
          (if \<exists>m\<in>set messages. senderID m = k \<and> pointsValid sm m = Some False
           then map_option PrivateKey (ephemeralKeyPairs sm k) else None))
    \<and> (\<forall>k. map_of (receivedValidPeerPublicKeySharePoints sm') k =
          (case find (\<lambda>m. senderID m = k \<and> pointsValid sm m = Some True) (rev messages) of
             None \<Rightarrow> map_of (receivedValidPeerPublicKeySharePoints sm) k
           | Some m \<Rightarrow> Some (message_publicKeySharePoints m)))
    \<and> (\<forall>m\<in>set messages. map_of accused (senderID m) \<noteq> None
          \<or> map_of (receivedValidPeerPublicKeySharePoints sm') (senderID m) \<noteq> None)
    \<and> (distinct (map senderID messages) \<longrightarrow>
         (\<forall>m\<in>set messages.
            (pointsValid sm m = Some True \<longrightarrow>
               map_of (receivedValidPeerPublicKeySharePoints sm') (senderID m) =
                 Some (message_publicKeySharePoints m)
               \<and> map_of accused (senderID m) = None)
          \<and> (pointsValid sm m = Some False \<longrightarrow>
               map_of accused (senderID m) =
                 map_option PrivateKey (ephemeralKeyPairs sm (senderID m))
               \<and> map_of (receivedValidPeerPublicKeySharePoints sm') (senderID m) =
                   map_of (receivedValidPeerPublicKeySharePoints sm) (senderID m))))"
proof -
  have defined: "\<forall>m\<in>set messages. \<exists>s valid.
          map_of (receivedValidSharesS sm) (senderID m) = Some s
          \<and> isShareValidAgainstPublicKeySharePoints (protocolConfig sm) (vss sm) (ID sm) (Some s)
               (message_publicKeySharePoints m) = Some valid"
  proof
    fix m
    assume "m \<in> set messages"
    with assms(2) obtain s where s: "map_of (receivedValidSharesS sm) (senderID m) = Some s"
      by auto
    from isShareValidAgainstPublicKeySharePoints_defined [OF assms(1)]
    obtain valid where "isShareValidAgainstPublicKeySharePoints (protocolConfig sm) (vss sm) (ID sm)
        (Some s) (message_publicKeySharePoints m) = Some valid"
      by blast
    with s show "\<exists>s valid. map_of (receivedValidSharesS sm) (senderID m) = Some s
          \<and> isShareValidAgainstPublicKeySharePoints (protocolConfig sm) (vss sm) (ID sm) (Some s)
               (message_publicKeySharePoints m) = Some valid"
      by blast
  qed
  then have ok: "\<forall>m\<in>set messages. pointsValid sm m \<noteq> None \<and> ephemeralKeyPairs sm (senderID m) \<noteq> None"
    using assms(2,3) by (auto simp: pointsValid_def)
  from VerifyPublicKeySharePoints_loop_result [OF ok, of "[]"] obtain sm' accused where
    loop: "VerifyPublicKeySharePoints_loop sm messages [] = Inr (sm', accused)"
    and handled: "\<forall>m\<in>set messages. map_of accused (senderID m) \<noteq> None
           \<or> map_of (receivedValidPeerPublicKeySharePoints sm') (senderID m) \<noteq> None"
    and exact: "distinct (map senderID messages) \<longrightarrow>
          (\<forall>m\<in>set messages.
             (pointsValid sm m = Some True \<longrightarrow>
                map_of (receivedValidPeerPublicKeySharePoints sm') (senderID m) =
                  Some (message_publicKeySharePoints m)
                \<and> map_of accused (senderID m) = map_of [] (senderID m))
           \<and> (pointsValid sm m = Some False \<longrightarrow>
                map_of accused (senderID m) =
                  map_option PrivateKey (ephemeralKeyPairs sm (senderID m))
                \<and> map_of (receivedValidPeerPublicKeySharePoints sm') (senderID m) =
                    map_of (receivedValidPeerPublicKeySharePoints sm) (senderID m)))"
    by blast
  from VerifyPublicKeySharePoints_loop_maps [OF ok, of "[]"] loop have
    accused: "\<forall>k. map_of accused k =
          (if \<exists>m\<in>set messages. senderID m = k \<and> pointsValid sm m = Some False
           then map_option PrivateKey (ephemeralKeyPairs sm k) else None)"
    and recorded: "\<forall>k. map_of (receivedValidPeerPublicKeySharePoints sm') k =
          (case find (\<lambda>m. senderID m = k \<and> pointsValid sm m = Some True) (rev messages) of
             None \<Rightarrow> map_of (receivedValidPeerPublicKeySharePoints sm) k
           | Some m \<Rightarrow> Some (message_publicKeySharePoints m))"
    by auto
  have run: "VerifyPublicKeySharePoints sm messages =
      Inr (sm', \<lparr>senderID = ID sm, accusedMembersKeys = accused\<rparr>)"
    by (simp add: VerifyPublicKeySharePoints_def loop)
  from exact have exact': "distinct (map senderID messages) \<longrightarrow>
         (\<forall>m\<in>set messages.
            (pointsValid sm m = Some True \<longrightarrow>
               map_of (receivedValidPeerPublicKeySharePoints sm') (senderID m) =
                 Some (message_publicKeySharePoints m)
               \<and> map_of accused (senderID m) = None)
          \<and> (pointsValid sm m = Some False \<longrightarrow>
               map_of accused (senderID m) =
                 map_option PrivateKey (ephemeralKeyPairs sm (senderID m))
               \<and> map_of (receivedValidPeerPublicKeySharePoints sm') (senderID m) =
                   map_of (receivedValidPeerPublicKeySharePoints sm) (senderID m)))"
    by simp
  from run defined accused recorded handled exact' show ?thesis
    by (intro exI conjI)
qed

theorem points_verification_handles_every_sender_witness:
  "VerifyPublicKeySharePoints member3_phase8 [pointsMessage1_bad, pointsMessage2] =
     Inr (member3_phase8\<lparr>receivedValidPeerPublicKeySharePoints := [(2, [2, 4])]\<rparr>,
          \<lparr>senderID = 3, accusedMembersKeys = [(1, PrivKey 31)]\<rparr>)
   \<and> pointsValid member3_phase8 pointsMessage1_bad = Some False
   \<and> pointsValid member3_phase8 pointsMessage2 = Some True"
proof -
  have h1: "dkg_P (protocolConfig member3_phase8) \<noteq> 0"
    by (simp add: member3_phase8_def member3_def cfg7_def)
  have h2: "\<forall>m\<in>set [pointsMessage1_bad, pointsMessage2].
      map_of (receivedValidSharesS member3_phase8) (senderID m) \<noteq> None"
    by (simp add: member3_phase8_def pointsMessage1_bad_def pointsMessage2_def)
  have h3: "\<forall>k. map_of (receivedValidSharesS member3_phase8) k \<noteq> None \<longrightarrow>
      ephemeralKeyPairs member3_phase8 k \<noteq> None"
    by (auto simp: member3_phase8_def split: if_splits)
  from points_verification_handles_every_sender [OF h1 h2 h3]
  have "\<exists>sm' accused. VerifyPublicKeySharePoints member3_phase8 [pointsMessage1_bad, pointsMessage2] =
      Inr (sm', \<lparr>senderID = ID member3_phase8, accusedMembersKeys = accused\<rparr>)"
    by blast
  moreover have "VerifyPublicKeySharePoints member3_phase8 [pointsMessage1_bad, pointsMessage2] =
     Inr (member3_phase8\<lparr>receivedValidPeerPublicKeySharePoints := [(2, [2, 4])]\<rparr>,
          \<lparr>senderID = 3, accusedMembersKeys = [(1, PrivKey 31)]\<rparr>)"
    by (simp add: VerifyPublicKeySharePoints_def VerifyPublicKeySharePoints_body_def
        isShareValidAgainstPublicKeySharePoints_def Int_Mod_def Int_Exp_def pow_def
        member3_phase8_def member3_def cfg7_def vss7_def pointsMessage1_bad_def pointsMessage2_def
        keyPair31_def keyPair32_def)
  moreover have "pointsValid member3_phase8 pointsMessage1_bad = Some False"
    by (simp add: pointsValid_def isShareValidAgainstPublicKeySharePoints_def Int_Mod_def
        Int_Exp_def pow_def member3_phase8_def member3_def cfg7_def vss7_def pointsMessage1_bad_def)
  moreover have "pointsValid member3_phase8 pointsMessage2 = Some True"
    by (simp add: pointsValid_def isShareValidAgainstPublicKeySharePoints_def Int_Mod_def
        Int_Exp_def pow_def member3_phase8_def member3_def cfg7_def vss7_def pointsMessage2_def)
  ultimately show ?thesis by simp
qed

end
